theory Spec2Isabelle
  imports Complex_Main "HOL-Library.Log_Nat" "HOL-Library.Word"
begin

section \<open>JavaScript numbers\<close>

text \<open>
  Every \<^verbatim>\<open>number\<close> of the program is an IEEE 754 binary64 value. A finite one is
  modelled by the rational it denotes, and every arithmetic operator rounds its exact result
  to the nearest value with a 53-bit significand, ties to the even significand. The exponent
  range is not bounded here, so the model agrees with the hardware wherever no result
  overflows (magnitude below \<open>2^1024\<close>) or is subnormal (magnitude below \<open>2^-1022\<close>);
  NaN and the infinities are outside the model.
\<close>

type_synonym number = rat

definition pow2 :: "int \<Rightarrow> rat" where
  "pow2 e = (if 0 \<le> e then 2 ^ nat e else 1 / 2 ^ nat (- e))"

text \<open>\<open>ilog2 x\<close> is the binary exponent of a positive \<open>x\<close>: \<open>2^(ilog2 x) \<le> x < 2^(ilog2 x + 1)\<close>.\<close>

definition ilog2 :: "rat \<Rightarrow> int" where
  "ilog2 x = (if 1 \<le> x then bitlen \<lfloor>x\<rfloor> - 1 else - bitlen (\<lceil>1 / x\<rceil> - 1))"

definition round_half_even :: "rat \<Rightarrow> int" where
  "round_half_even y =
     (let n = \<lfloor>y\<rfloor>; r = y - of_int n
      in if r < 1 / 2 then n else if 1 / 2 < r then n + 1 else if even n then n else n + 1)"

definition fl :: "rat \<Rightarrow> number" where
  "fl x = (if x = 0 then 0
           else let e = ilog2 \<bar>x\<bar> - 52
                in sgn x * of_int (round_half_even (\<bar>x\<bar> / pow2 e)) * pow2 e)"

definition fadd :: "number \<Rightarrow> number \<Rightarrow> number" where
  "fadd a b = fl (a + b)"

definition fsub :: "number \<Rightarrow> number \<Rightarrow> number" where
  "fsub a b = fl (a - b)"

definition fmul :: "number \<Rightarrow> number \<Rightarrow> number" where
  "fmul a b = fl (a * b)"

text \<open>Division by zero gives an infinity or NaN in JavaScript; the callers below are only
  stated for a non-zero divisor.\<close>

definition fdiv :: "number \<Rightarrow> number \<Rightarrow> number" where
  "fdiv a b = fl (a / b)"

text \<open>\<^verbatim>\<open>Math.floor\<close> and \<^verbatim>\<open>Math.round\<close> of a finite number are exact.\<close>

definition Math_floor :: "number \<Rightarrow> int" where
  "Math_floor a = \<lfloor>a\<rfloor>"

definition Math_round :: "number \<Rightarrow> int" where
  "Math_round a = \<lfloor>a + 1 / 2\<rfloor>"

section \<open>Data model (types.ts and the component state of App.tsx)\<close>

record SliceSettings =
  startTime :: number
  endTime :: number
  fps :: number
  quality :: number

datatype Blob = Blob nat

datatype File = File (file_name: string) (file_type: string)

text \<open>\<^verbatim>\<open>URL.createObjectURL\<close> hands out an opaque URL for a file or a blob.\<close>

datatype object_url = UrlOfFile File | UrlOfBlob Blob

record SliceResult =
  blob :: Blob
  url :: object_url

datatype AppMode = VIDEO | IMAGE

text \<open>\<^verbatim>\<open>naturalWidth\<close>, \<^verbatim>\<open>videoWidth\<close> and their height counterparts are
  \<^verbatim>\<open>unsigned long\<close> attributes of the DOM, the only values ever stored in
  \<^verbatim>\<open>mediaInfo\<close> besides the initial 0.\<close>

record MediaInfo =
  duration :: number
  width :: "32 word"
  height :: "32 word"

text \<open>
  The texts of the program are Chinese string literals; each literal is a constructor
  here. Messages of the errors the component raises:
  \<^item> \<open>GifEngineNotReady\<close>: the GIF engine is not ready (\<^verbatim>\<open>sliceVideoToGif\<close>);
  \<^item> \<open>SeekTimeout\<close>: the video seek timed out (\<^verbatim>\<open>seekTo\<close>; the second copy of the
    component adds that the format may be incompatible);
  \<^item> \<open>NoMediaSource\<close>: no media source was found (\<^verbatim>\<open>handleProcess\<close>);
  \<^item> \<open>UnknownError\<close>: the text shown for an error without a message;
  \<^item> \<open>Text\<close>: the message of an error raised by the browser or by a library.
\<close>

datatype message =
    GifEngineNotReady
  | SeekTimeout
  | NoMediaSource
  | UnknownError
  | Text string

datatype Error = Error (err_message: message)

text \<open>
  The status line: empty; the GIF engine failed to initialise; slice \<open>n\<close> of 9 is being
  processed; all slices are done; slicing failed, followed by a message; the resources are
  not ready (second copy only); the archive is being packed; the download has started;
  packing failed.
\<close>

datatype status_text =
    NoStatus
  | GifInitFailed
  | ProcessingSlice nat
  | AllSlicesDone
  | ProcessFailed message
  | ResourcesNotReady
  | PackingZip
  | DownloadStarted
  | PackFailed

record app_state =
  "file" :: "File option"
  previewUrl :: "object_url option"
  mode :: AppMode
  mediaInfo :: MediaInfo
  settings :: SliceSettings
  isProcessing :: bool
  progress :: number
  status :: status_text
  results :: "SliceResult option list"
  workerBlobUrl :: "object_url option"

text \<open>The state of the first render (the \<^verbatim>\<open>useState\<close> initialisers).\<close>

definition initial_state :: app_state where
  "initial_state =
     \<lparr>file = None, previewUrl = None, mode = VIDEO,
      mediaInfo = \<lparr>duration = 0, width = 0, height = 0\<rparr>,
      settings = \<lparr>startTime = 0, endTime = 6, fps = 10, quality = 10\<rparr>,
      isProcessing = False, progress = 0, status = NoStatus,
      results = replicate 9 None, workerBlobUrl = None\<rparr>"

section \<open>handleFileChange\<close>

definition startsWith :: "string \<Rightarrow> string \<Rightarrow> bool" where
  "startsWith s p = (take (length p) s = p)"

text \<open>The argument is \<^verbatim>\<open>e.target.files?.[0]\<close>. Revoking the old preview URL changes
  nothing the component reads and is left out.\<close>

definition handleFileChange :: "File option \<Rightarrow> app_state \<Rightarrow> app_state" where
  "handleFileChange selectedFile s =
     (case selectedFile of
        None \<Rightarrow> s
      | Some f \<Rightarrow>
          s\<lparr>results := replicate 9 None,
            progress := 0,
            status := NoStatus,
            previewUrl := Some (UrlOfFile f),
            file := Some f,
            mode := (if startsWith (file_type f) ''image/'' then IMAGE else VIDEO)\<rparr>)"

section \<open>The browser and the libraries\<close>

text \<open>A promise either resolves, rejects, or never settles.\<close>

datatype 'a outcome = Resolved 'a | Rejected Error | Pending

text \<open>What the video element does after \<^verbatim>\<open>video.currentTime = time\<close>: it dispatches
  \<^verbatim>\<open>seeked\<close> after so many milliseconds, or never.\<close>

datatype seek_response = SeekedAfter nat | NeverSeeked

text \<open>The rectangle handed to a slicer: \<^verbatim>\<open>sx, sy, sw, sh\<close>. Pixel coordinates are
  integers far below \<open>2^53\<close>, where the arithmetic of numbers is exact.\<close>

record Region =
  sx :: nat
  sy :: nat
  sw :: nat
  sh :: nat

text \<open>One \<^verbatim>\<open>gif.addFrame\<close>: the canvas holds the region of the video as displayed after
  the seek to \<open>frame_time\<close>.\<close>

record Frame =
  frame_time :: number
  frame_region :: Region
  frame_delay :: number

datatype zip_entry = Folder string | ZipFile string Blob

text \<open>
  Everything outside the component. The first argument of \<open>canvas_toBlob\<close>, \<open>video_seek\<close>,
  \<open>ctx_drawImage\<close>, \<open>gif_addFrame\<close> and \<open>gif_render\<close> is the index of the slice being
  produced, and the second argument of \<open>video_seek\<close>, \<open>ctx_drawImage\<close> and
  \<open>gif_addFrame\<close> is the loop counter \<open>f\<close> of the frame, so that the browser may answer
  each call differently. \<open>canvas_toBlob\<close> is \<open>Inl\<close> when drawing throws and \<open>Inr None\<close>
  when the callback receives no blob. \<open>ctx_drawImage\<close> (the video is at the given time
  and the given region of it is drawn) and \<open>gif_addFrame\<close> are \<open>Some err\<close> when the call
  throws \<open>err\<close> (without a 2d context \<^verbatim>\<open>ctx?.drawImage\<close> is skipped, which is
  \<open>None\<close>). \<open>gif_render\<close> stands for the two statements after the loop: it is
  \<open>Rejected\<close> when registering the listener or \<^verbatim>\<open>gif.render()\<close> throws, and \<open>Pending\<close>
  when the encoder never emits \<^verbatim>\<open>finished\<close>. Creating the canvas and the encoder is
  taken not to throw.
\<close>

record world =
  imageRef_current :: bool
  videoRef_current :: bool
  window_GIF :: bool
  window_JSZip :: bool
  canvas_toBlob :: "nat \<Rightarrow> Region \<Rightarrow> Error + Blob option"
  video_seek :: "nat \<Rightarrow> nat \<Rightarrow> number \<Rightarrow> seek_response"
  ctx_drawImage :: "nat \<Rightarrow> nat \<Rightarrow> number \<Rightarrow> Region \<Rightarrow> Error option"
  gif_addFrame :: "nat \<Rightarrow> nat \<Rightarrow> Frame \<Rightarrow> Error option"
  gif_render :: "nat \<Rightarrow> number \<Rightarrow> Frame list \<Rightarrow> Blob outcome"
  zip_generateAsync :: "zip_entry list \<Rightarrow> Blob outcome"

section \<open>sliceImage\<close>

definition sliceImage :: "world \<Rightarrow> nat \<Rightarrow> Region \<Rightarrow> SliceResult outcome" where
  "sliceImage w i r =
     (case canvas_toBlob w i r of
        Inl err \<Rightarrow> Rejected err
      | Inr None \<Rightarrow> Pending
      | Inr (Some b) \<Rightarrow> Resolved \<lparr>blob = b, url = UrlOfBlob b\<rparr>)"

section \<open>sliceVideoToGif\<close>

text \<open>\<^verbatim>\<open>seekTo\<close>: the 5000 ms timer rejects unless \<^verbatim>\<open>seeked\<close> was dispatched before it
  fires. A \<^verbatim>\<open>seeked\<close> due at the very millisecond of the timer is counted as late.\<close>

definition seekTo :: "seek_response \<Rightarrow> Error + unit" where
  "seekTo r =
     (case r of
        SeekedAfter ms \<Rightarrow> if ms < 5000 then Inr () else Inl (Error SeekTimeout)
      | NeverSeeked \<Rightarrow> Inl (Error SeekTimeout))"

text \<open>
  The \<^verbatim>\<open>for\<close> loop over \<open>f\<close>, with \<open>currentTime\<close> and the frames added so far. Each
  iteration awaits the seek, draws the region on the canvas and adds the canvas to the
  encoder; an error of any of the three leaves the loop for the \<^verbatim>\<open>catch\<close> clause.
\<close>

function frame_loop ::
  "(nat \<Rightarrow> number \<Rightarrow> seek_response) \<Rightarrow> (nat \<Rightarrow> number \<Rightarrow> Region \<Rightarrow> Error option)
     \<Rightarrow> (nat \<Rightarrow> Frame \<Rightarrow> Error option) \<Rightarrow> Region \<Rightarrow> SliceSettings \<Rightarrow> int \<Rightarrow> number
     \<Rightarrow> int \<Rightarrow> number \<Rightarrow> Frame list \<Rightarrow> Error + Frame list" where
  "frame_loop seek drawImage addFrame r s totalFrames step f currentTime frames =
     (if f < totalFrames then
        (case seekTo (seek (nat f) currentTime) of
           Inl err \<Rightarrow> Inl err
         | Inr _ \<Rightarrow>
             (case drawImage (nat f) currentTime r of
                Some err \<Rightarrow> Inl err
              | None \<Rightarrow>
                  (case addFrame (nat f) \<lparr>frame_time = currentTime, frame_region = r,
                                          frame_delay = fdiv 1000 (fps s)\<rparr> of
                     Some err \<Rightarrow> Inl err
                   | None \<Rightarrow>
                       (let frames' = frames @ [\<lparr>frame_time = currentTime, frame_region = r,
                                                 frame_delay = fdiv 1000 (fps s)\<rparr>];
                            currentTime' = fadd currentTime step
                        in if endTime s < currentTime' then Inr frames'
                           else frame_loop seek drawImage addFrame r s totalFrames step (f + 1)
                                  currentTime' frames'))))
      else Inr frames)"
  by pat_completeness auto
termination
  by (relation "measure (\<lambda>(seek, drawImage, addFrame, r, s, totalFrames, step, f, currentTime,
        frames). nat (totalFrames - f))") auto

definition totalFrames_of :: "SliceSettings \<Rightarrow> int" where
  "totalFrames_of s =
     (let duration = max (fl (1 / 10)) (fsub (endTime s) (startTime s))
      in max 1 (Math_floor (fmul duration (fps s))))"

definition sample_frames ::
  "(nat \<Rightarrow> number \<Rightarrow> seek_response) \<Rightarrow> (nat \<Rightarrow> number \<Rightarrow> Region \<Rightarrow> Error option)
     \<Rightarrow> (nat \<Rightarrow> Frame \<Rightarrow> Error option) \<Rightarrow> Region \<Rightarrow> SliceSettings \<Rightarrow> Error + Frame list" where
  "sample_frames seek drawImage addFrame r s =
     (let totalFrames = totalFrames_of s;
          step = fdiv 1 (fps s);
          currentTime = startTime s
      in frame_loop seek drawImage addFrame r s totalFrames step 0 currentTime [])"

definition sliceVideoToGif ::
  "world \<Rightarrow> app_state \<Rightarrow> nat \<Rightarrow> Region \<Rightarrow> SliceSettings \<Rightarrow> SliceResult outcome" where
  "sliceVideoToGif w c i r s =
     (if \<not> window_GIF w \<or> workerBlobUrl c = None then Rejected (Error GifEngineNotReady)
      else case sample_frames (video_seek w i) (ctx_drawImage w i) (gif_addFrame w i) r s of
             Inl err \<Rightarrow> Rejected err
           | Inr frames \<Rightarrow>
               (case gif_render w i (quality s) frames of
                  Resolved b \<Rightarrow> Resolved \<lparr>blob = b, url = UrlOfBlob b\<rparr>
                | Rejected err \<Rightarrow> Rejected err
                | Pending \<Rightarrow> Pending))"

section \<open>handleProcess\<close>

text \<open>
  The handler is the list of its effects in program order: the state setters it calls, the
  slicers it invokes and what it logs. The values it reads (\<open>file\<close>, \<open>mode\<close>,
  \<open>mediaInfo\<close>, \<open>settings\<close>, \<open>workerBlobUrl\<close>) are those of the render that created the
  handler, the state \<open>c\<close>.
\<close>

datatype event =
    SetIsProcessing bool
  | SetProgress number
  | SetResults "SliceResult option list"
  | SetStatus status_text
  | CallSlicer nat Region
  | ConsoleError Error

fun apply_event :: "event \<Rightarrow> app_state \<Rightarrow> app_state" where
  "apply_event (SetIsProcessing b) s = s\<lparr>isProcessing := b\<rparr>"
| "apply_event (SetProgress p) s = s\<lparr>progress := p\<rparr>"
| "apply_event (SetResults rs) s = s\<lparr>results := rs\<rparr>"
| "apply_event (SetStatus t) s = s\<lparr>status := t\<rparr>"
| "apply_event (CallSlicer i r) s = s"
| "apply_event (ConsoleError err) s = s"

text \<open>How the \<^verbatim>\<open>try\<close> block ends: normally, by an exception, or never (an awaited promise
  that does not settle).\<close>

datatype completion = Returned | Threw Error | Suspended

definition chunk :: "32 word \<Rightarrow> nat" where
  "chunk n = nat (Math_floor (fdiv (of_nat (unat n)) 3))"

definition region_of :: "nat \<Rightarrow> nat \<Rightarrow> nat \<Rightarrow> Region" where
  "region_of chunkW chunkH i =
     (let row = i div 3; col = i mod 3
      in \<lparr>sx = col * chunkW, sy = row * chunkH, sw = chunkW, sh = chunkH\<rparr>)"

definition produce ::
  "world \<Rightarrow> app_state \<Rightarrow> nat \<Rightarrow> Region \<Rightarrow> event list \<times> SliceResult outcome" where
  "produce w c i r =
     (if mode c = IMAGE \<and> imageRef_current w then ([CallSlicer i r], sliceImage w i r)
      else if mode c = VIDEO \<and> videoRef_current w
           then ([CallSlicer i r], sliceVideoToGif w c i r (settings c))
      else ([], Rejected (Error NoMediaSource)))"

function process_loop ::
  "world \<Rightarrow> app_state \<Rightarrow> nat \<Rightarrow> nat \<Rightarrow> nat \<Rightarrow> SliceResult option list
     \<Rightarrow> event list \<times> completion" where
  "process_loop w c chunkW chunkH i newResults =
     (if i < 9 then
        (case produce w c i (region_of chunkW chunkH i) of
           (evs, Rejected err) \<Rightarrow> (SetStatus (ProcessingSlice (i + 1)) # evs, Threw err)
         | (evs, Pending) \<Rightarrow> (SetStatus (ProcessingSlice (i + 1)) # evs, Suspended)
         | (evs, Resolved result) \<Rightarrow>
             (let newResults' = newResults[i := Some result];
                  (rest, fin) = process_loop w c chunkW chunkH (i + 1) newResults'
              in (SetStatus (ProcessingSlice (i + 1)) # evs
                    @ [SetResults newResults',
                       SetProgress (fmul (fdiv (of_nat (i + 1)) 9) 100)]
                    @ rest, fin)))
      else ([], Returned))"
  by pat_completeness auto
termination
  by (relation "measure (\<lambda>(w, c, chunkW, chunkH, i, newResults). 9 - i)") auto

text \<open>\<^verbatim>\<open>err.message || <unknown error>\<close>: an empty message is falsy.\<close>

definition message_or_unknown :: "Error \<Rightarrow> message" where
  "message_or_unknown err = (if err_message err = Text [] then UnknownError else err_message err)"

text \<open>The handler after its guard.\<close>

definition process_run :: "world \<Rightarrow> app_state \<Rightarrow> event list" where
  "process_run w c =
     (let chunkW = chunk (width (mediaInfo c));
          chunkH = chunk (height (mediaInfo c));
          newResults = replicate 9 None
      in [SetIsProcessing True, SetProgress 0, SetResults (replicate 9 None)] @
         (case process_loop w c chunkW chunkH 0 newResults of
            (evs, Returned) \<Rightarrow> evs @ [SetStatus AllSlicesDone, SetIsProcessing False]
          | (evs, Threw err) \<Rightarrow>
              evs @ [ConsoleError err, SetStatus (ProcessFailed (message_or_unknown err)),
                     SetIsProcessing False]
          | (evs, Suspended) \<Rightarrow> evs))"

definition not_ready :: "app_state \<Rightarrow> bool" where
  "not_ready c = (file c = None \<or> (mode c = VIDEO \<and> workerBlobUrl c = None))"

definition handleProcess_events :: "world \<Rightarrow> app_state \<Rightarrow> event list" where
  "handleProcess_events w c = (if not_ready c then [] else process_run w c)"

text \<open>The second copy of the component differs in the guard, which sets a status text.\<close>

definition handleProcess_events' :: "world \<Rightarrow> app_state \<Rightarrow> event list" where
  "handleProcess_events' w c =
     (if not_ready c then [SetStatus ResourcesNotReady] else process_run w c)"

text \<open>The states the component passes through, one after each effect, and the last one.\<close>

fun states_after :: "app_state \<Rightarrow> event list \<Rightarrow> app_state list" where
  "states_after s [] = []"
| "states_after s (e # es) = apply_event e s # states_after (apply_event e s) es"

definition run_events :: "app_state \<Rightarrow> event list \<Rightarrow> app_state" where
  "run_events s es = fold apply_event es s"

definition handleProcess :: "world \<Rightarrow> app_state \<Rightarrow> app_state" where
  "handleProcess w s = run_events s (handleProcess_events w s)"

definition handleProcess' :: "world \<Rightarrow> app_state \<Rightarrow> app_state" where
  "handleProcess' w s = run_events s (handleProcess_events' w s)"

section \<open>handleDownloadAll\<close>

function show_nat :: "nat \<Rightarrow> string" where
  "show_nat n =
     (if n < 10 then [char_of (48 + n)]
      else show_nat (n div 10) @ [char_of (48 + n mod 10)])"
  by pat_completeness auto
termination
  by (relation "measure id") auto

text \<open>\<^verbatim>\<open>folder.file(name, data)\<close> of JSZip replaces an entry of the same path.\<close>

definition entry_path :: "zip_entry \<Rightarrow> string" where
  "entry_path e = (case e of Folder p \<Rightarrow> p | ZipFile p b \<Rightarrow> p)"

definition zip_folder :: "string \<Rightarrow> zip_entry list \<Rightarrow> zip_entry list" where
  "zip_folder name es =
     (if Folder (name @ ''/'') \<in> set es then es else es @ [Folder (name @ ''/'')])"

definition folder_file :: "string \<Rightarrow> string \<Rightarrow> Blob \<Rightarrow> zip_entry list \<Rightarrow> zip_entry list" where
  "folder_file folderName name b es =
     (let path = folderName @ ''/'' @ name
      in filter (\<lambda>e. entry_path e \<noteq> path) es @ [ZipFile path b])"

text \<open>\<^verbatim>\<open>results.forEach((res, i) => ...)\<close>, from index \<open>i\<close> on.\<close>

fun add_slices ::
  "string \<Rightarrow> string \<Rightarrow> nat \<Rightarrow> SliceResult option list \<Rightarrow> zip_entry list \<Rightarrow> zip_entry list" where
  "add_slices folderName ext i [] es = es"
| "add_slices folderName ext i (res # rest) es =
     add_slices folderName ext (i + 1) rest
       (case res of
          None \<Rightarrow> es
        | Some r \<Rightarrow> folder_file folderName (''slice_'' @ show_nat (i + 1) @ ''.'' @ ext) (blob r) es)"

text \<open>What \<^verbatim>\<open>window.saveAs\<close> received: the archive and its file name.\<close>

record download =
  archive :: "zip_entry list"
  content :: Blob
  filename :: string

definition handleDownloadAll :: "world \<Rightarrow> app_state \<Rightarrow> app_state \<times> download option" where
  "handleDownloadAll w s =
     (if \<exists>r \<in> set (results s). r = None then (s, None)
      else if \<not> window_JSZip w then (s\<lparr>status := PackFailed\<rparr>, None)
      else
        (let folderName = (if mode s = IMAGE then ''9_grid_images'' else ''9_grid_gifs'');
             ext = (if mode s = IMAGE then ''png'' else ''gif'');
             zip = add_slices folderName ext 0 (results s) (zip_folder folderName [])
         in case zip_generateAsync w zip of
              Resolved c \<Rightarrow>
                (s\<lparr>status := DownloadStarted\<rparr>,
                 Some \<lparr>archive = zip, content = c, filename = folderName @ ''.zip''\<rparr>)
            | Rejected err \<Rightarrow> (s\<lparr>status := PackFailed\<rparr>, None)
            | Pending \<Rightarrow> (s\<lparr>status := PackingZip\<rparr>, None)))"

section \<open>Vocabulary of the statements\<close>

text \<open>The nine regions \<^verbatim>\<open>handleProcess\<close> computes for a medium, in the order of its loop,
  and the pixels a region covers.\<close>

definition partition_regions :: "32 word \<Rightarrow> 32 word \<Rightarrow> Region list" where
  "partition_regions W H = map (region_of (chunk W) (chunk H)) [0..<9]"

definition region_pixels :: "Region \<Rightarrow> (nat \<times> nat) set" where
  "region_pixels r = set (List.product [sx r..<sx r + sw r] [sy r..<sy r + sh r])"

text \<open>What the browser answers to the production of slice \<open>j\<close> in a run started from the
  state \<open>c\<close>, and the slot it fills.\<close>

definition slice_region :: "app_state \<Rightarrow> nat \<Rightarrow> Region" where
  "slice_region c j =
     region_of (chunk (width (mediaInfo c))) (chunk (height (mediaInfo c))) j"

definition slice_outcome :: "world \<Rightarrow> app_state \<Rightarrow> nat \<Rightarrow> SliceResult outcome" where
  "slice_outcome w c j = snd (produce w c j (slice_region c j))"

definition slice_calls :: "world \<Rightarrow> app_state \<Rightarrow> nat \<Rightarrow> event list" where
  "slice_calls w c j = fst (produce w c j (slice_region c j))"

definition slot :: "world \<Rightarrow> app_state \<Rightarrow> nat \<Rightarrow> SliceResult option" where
  "slot w c j = (case slice_outcome w c j of Resolved r \<Rightarrow> Some r | _ \<Rightarrow> None)"

text \<open>The result set with the first \<open>n\<close> slots filled.\<close>

definition results_after :: "world \<Rightarrow> app_state \<Rightarrow> nat \<Rightarrow> SliceResult option list" where
  "results_after w c n = map (slot w c) [0..<n] @ replicate (9 - n) None"

definition progress_after :: "nat \<Rightarrow> number" where
  "progress_after i = fmul (fdiv (of_nat (i + 1)) 9) 100"

text \<open>The effects of one completed iteration of the loop, and of the first \<open>n\<close>.\<close>

definition block :: "world \<Rightarrow> app_state \<Rightarrow> nat \<Rightarrow> event list" where
  "block w c j =
     SetStatus (ProcessingSlice (j + 1)) # slice_calls w c j
       @ [SetResults (results_after w c (j + 1)), SetProgress (progress_after j)]"

definition blocks :: "world \<Rightarrow> app_state \<Rightarrow> nat \<Rightarrow> event list" where
  "blocks w c n = concat (map (block w c) [0..<n])"

text \<open>How the run ends when the first \<open>n\<close> slices have resolved and slice \<open>n\<close> has not.\<close>

definition ending :: "world \<Rightarrow> app_state \<Rightarrow> nat \<Rightarrow> event list" where
  "ending w c n =
     (if 9 \<le> n then [SetStatus AllSlicesDone, SetIsProcessing False]
      else SetStatus (ProcessingSlice (n + 1)) # slice_calls w c n @
        (case slice_outcome w c n of
           Rejected err \<Rightarrow>
             [ConsoleError err, SetStatus (ProcessFailed (message_or_unknown err)),
              SetIsProcessing False]
         | _ \<Rightarrow> []))"

definition progress_updates :: "event list \<Rightarrow> number list" where
  "progress_updates es = concat (map (\<lambda>e. case e of SetProgress p \<Rightarrow> [p] | _ \<Rightarrow> []) es)"

definition slicer_calls :: "event list \<Rightarrow> nat list" where
  "slicer_calls es = concat (map (\<lambda>e. case e of CallSlicer i r \<Rightarrow> [i] | _ \<Rightarrow> []) es)"

definition console_errors :: "event list \<Rightarrow> Error list" where
  "console_errors es = concat (map (\<lambda>e. case e of ConsoleError err \<Rightarrow> [err] | _ \<Rightarrow> []) es)"

text \<open>What a run tells about a failure: the final status text and the console.\<close>

definition failure_report :: "world \<Rightarrow> app_state \<Rightarrow> status_text \<times> Error list" where
  "failure_report w s =
     (status (handleProcess w s), console_errors (handleProcess_events w s))"

text \<open>A result set is filled in index order when its filled slots are exactly the first
  ones; a write is in order when it fills the first empty slot and nothing else.\<close>

definition filled_count :: "'a option list \<Rightarrow> nat" where
  "filled_count rs = length (takeWhile (\<lambda>r. r \<noteq> None) rs)"

definition prefix_filled :: "'a option list \<Rightarrow> bool" where
  "prefix_filled rs =
     (length rs = 9 \<and> list_all (\<lambda>r. r = None) (drop (filled_count rs) rs))"

definition fills_next :: "'a option list \<Rightarrow> 'a option list \<Rightarrow> bool" where
  "fills_next rs rs' =
     (let i = filled_count rs
      in i < length rs \<and> rs' ! i \<noteq> None \<and> rs' = rs[i := rs' ! i])"

fun in_order :: "'a option list \<Rightarrow> 'a option list list \<Rightarrow> bool" where
  "in_order rs [] = True"
| "in_order rs (rs' # rest) = ((rs' = rs \<or> fills_next rs rs') \<and> in_order rs' rest)"

text \<open>The times the sampling loop seeks to when every seek is answered at once and no
  call throws.\<close>

definition sample_times :: "SliceSettings \<Rightarrow> number list" where
  "sample_times s =
     (case sample_frames (\<lambda>f t. SeekedAfter 0) (\<lambda>f t r. None) (\<lambda>f fr. None)
             \<lparr>sx = 0, sy = 0, sw = 0, sh = 0\<rparr> s of
        Inr frames \<Rightarrow> map frame_time frames
      | Inl err \<Rightarrow> [])"

text \<open>Each time of a list is the one before plus \<open>step\<close>, rounded, and does not exceed
  \<open>e\<close>.\<close>

definition accumulates :: "number \<Rightarrow> number \<Rightarrow> number list \<Rightarrow> bool" where
  "accumulates step e ts =
     (\<forall>k. k + 1 < length ts \<longrightarrow> ts ! (k + 1) = fadd (ts ! k) step \<and> ts ! (k + 1) \<le> e)"

text \<open>A seek answered before the timer. The frame with counter \<open>f\<close>, sought at time
  \<open>t\<close>, is captured when its seek is answered before the timer and neither drawing it nor
  adding it to the encoder throws.\<close>

definition in_time :: "seek_response \<Rightarrow> bool" where
  "in_time r = (case r of SeekedAfter ms \<Rightarrow> ms < 5000 | NeverSeeked \<Rightarrow> False)"

definition captured ::
  "(nat \<Rightarrow> number \<Rightarrow> seek_response) \<Rightarrow> (nat \<Rightarrow> number \<Rightarrow> Region \<Rightarrow> Error option)
     \<Rightarrow> (nat \<Rightarrow> Frame \<Rightarrow> Error option) \<Rightarrow> Region \<Rightarrow> SliceSettings \<Rightarrow> nat \<Rightarrow> number \<Rightarrow> bool" where
  "captured seek drawImage addFrame r s f t =
     (in_time (seek f t) \<and> drawImage f t r = None
      \<and> addFrame f \<lparr>frame_time = t, frame_region = r, frame_delay = fdiv 1000 (fps s)\<rparr> = None)"

definition supported_type :: "string \<Rightarrow> bool" where
  "supported_type t = (startsWith t ''image/'' \<or> startsWith t ''video/'')"

text \<open>The state when the loop has completed \<open>n\<close> iterations.\<close>

definition after_blocks :: "world \<Rightarrow> app_state \<Rightarrow> nat \<Rightarrow> app_state" where
  "after_blocks w s n =
     run_events s ([SetIsProcessing True, SetProgress 0, SetResults (replicate 9 None)]
       @ blocks w s n)"

section \<open>Concrete inputs\<close>

text \<open>A 10 by 7 image has been selected and loaded; the browser turns every canvas
  into a blob, except that drawing slice \<open>bad\<close> throws.\<close>

definition image_state :: app_state where
  "image_state =
     (handleFileChange (Some (File ''photo.png'' ''image/png'')) initial_state)
       \<lparr>mediaInfo := \<lparr>duration = 0, width = 10, height = 7\<rparr>\<rparr>"

definition image_world :: "nat option \<Rightarrow> world" where
  "image_world bad =
     \<lparr>imageRef_current = True, videoRef_current = False,
      window_GIF = False, window_JSZip = True,
      canvas_toBlob =
        (\<lambda>i r. if bad = Some i then Inl (Error (Text ''canvas failure''))
               else Inr (Some (Blob i))),
      video_seek = (\<lambda>i f t. NeverSeeked),
      ctx_drawImage = (\<lambda>i f t r. None),
      gif_addFrame = (\<lambda>i f fr. None),
      gif_render = (\<lambda>i q frames. Pending),
      zip_generateAsync = (\<lambda>es. Resolved (Blob 9))\<rparr>"

text \<open>A one-second 640 by 360 video has been selected and the GIF worker is loaded; every
  seek is answered after 20 ms, except that the seek for frame \<open>f\<close> of slice \<open>i\<close> is
  never answered when \<open>late = Some (i, f)\<close>; drawing a frame and adding it to the encoder
  never throw, and the encoder finishes every clip.\<close>

definition video_settings :: SliceSettings where
  "video_settings = \<lparr>startTime = 0, endTime = 1, fps = 10, quality = 10\<rparr>"

definition video_state :: app_state where
  "video_state =
     (handleFileChange (Some (File ''clip.mp4'' ''video/mp4'')) initial_state)
       \<lparr>mediaInfo := \<lparr>duration = 1, width = 640, height = 360\<rparr>,
        settings := video_settings,
        workerBlobUrl := Some (UrlOfBlob (Blob 0))\<rparr>"

definition video_world :: "(nat \<times> nat) option \<Rightarrow> world" where
  "video_world late =
     \<lparr>imageRef_current = False, videoRef_current = True,
      window_GIF = True, window_JSZip = True,
      canvas_toBlob = (\<lambda>i r. Inr None),
      video_seek = (\<lambda>i f t. if late = Some (i, f) then NeverSeeked else SeekedAfter 20),
      ctx_drawImage = (\<lambda>i f t r. None),
      gif_addFrame = (\<lambda>i f fr. None),
      gif_render = (\<lambda>i q frames. Resolved (Blob (i + 1))),
      zip_generateAsync = (\<lambda>es. Resolved (Blob 10))\<rparr>"

text \<open>The settings \<^verbatim>\<open>{startTime: 0, endTime: 0.05, fps: 10}\<close>; the literal 0.05 denotes
  the double nearest to 1/20.\<close>

definition short_settings :: SliceSettings where
  "short_settings = \<lparr>startTime = 0, endTime = fl (1 / 20), fps = 10, quality = 10\<rparr>"

declare frame_loop.simps [simp del]
declare process_loop.simps [simp del]
declare show_nat.simps [simp del]

section \<open>Rounding facts\<close>

lemma round_half_even_ge: "of_int n \<le> y \<Longrightarrow> n \<le> round_half_even y"
  unfolding round_half_even_def Let_def by (auto simp: le_floor_iff) linarith+

lemma round_half_even_le: "of_int (round_half_even y) \<le> y + 1 / 2"
  unfolding round_half_even_def Let_def by (auto) linarith+

lemma ilog2_less: "0 < x \<Longrightarrow> x < 2 ^ 52 \<Longrightarrow> ilog2 x \<le> 51"
proof -
  assume x: "0 < x" "x < 2 ^ 52"
  show ?thesis
  proof (cases "1 \<le> x")
    case True
    then have "0 < \<lfloor>x\<rfloor>" by linarith
    have "\<lfloor>x\<rfloor> < 2 ^ 52" using x by (simp add: floor_less_iff)
    then have "bitlen \<lfloor>x\<rfloor> \<le> 52"
      by (simp add: bitlen_le_iff_power)
    with True show ?thesis by (simp add: ilog2_def)
  next
    case False
    then show ?thesis using bitlen_nonneg [of "\<lceil>1 / x\<rceil> - 1"] by (simp add: ilog2_def)
  qed
qed

text \<open>The quotient of a 32-bit integer by 3 rounds to a number with the same floor, so
  \<^verbatim>\<open>Math.floor(n / 3)\<close> is the integer quotient.\<close>

lemma floor_fl_third:
  assumes "w < 2 ^ 32"
  shows "\<lfloor>fl (of_nat w / 3)\<rfloor> = int (w div 3)"
proof (cases "w = 0")
  case True
  then show ?thesis by (simp add: fl_def)
next
  case False
  define x :: rat where "x = of_nat w / 3"
  define k where "k = int (w div 3)"
  define m where "m = nat (52 - ilog2 x)"
  define P :: int where "P = 2 ^ m"
  have xpos: "0 < x" using False by (simp add: x_def)
  have "(of_nat w :: rat) < 2 ^ 32" using assms
    by (metis of_nat_less_iff of_nat_numeral of_nat_power)
  then have "x < 2 ^ 52" unfolding x_def by simp
  then have e: "ilog2 x \<le> 51" using xpos by (rule ilog2_less [rotated])
  then have m: "1 \<le> m" and me: "ilog2 x - 52 < 0" "nat (- (ilog2 x - 52)) = m"
    by (simp_all add: m_def)
  have P2: "2 \<le> P" unfolding P_def using m
    by (metis power_increasing [of 1 m "2::int"] power_one_right one_le_numeral)
  have flx: "fl x = of_int (round_half_even (x * of_int P)) / of_int P"
    using xpos me by (simp add: fl_def Let_def pow2_def P_def)
  have kx: "of_int k \<le> x" "x \<le> of_int k + 2 / 3"
    unfolding k_def x_def by (simp_all add: field_simps)
  have lo: "k * P \<le> round_half_even (x * of_int P)"
    apply (rule round_half_even_ge) using kx(1) P2 by (simp add: mult_right_mono)
  have "of_int (round_half_even (x * of_int P)) \<le> x * of_int P + 1 / 2"
    by (rule round_half_even_le)
  also have "\<dots> \<le> (of_int k + 2 / 3) * of_int P + 1 / 2"
    using kx(2) P2 by (simp add: mult_right_mono)
  also have "\<dots> < of_int ((k + 1) * P)"
    using P2 by (simp add: field_simps)
  finally have hi: "round_half_even (x * of_int P) < (k + 1) * P"
    by (simp only: of_int_less_iff)
  have Ppos: "(0::rat) < of_int P" using P2 by simp
  have "of_int k \<le> fl x"
    unfolding flx using lo Ppos
    by (simp add: pos_le_divide_eq) (metis of_int_le_iff of_int_mult)
  moreover have "fl x < of_int k + 1"
    unfolding flx using hi Ppos
    by (simp add: pos_divide_less_eq) (metis of_int_less_iff of_int_mult of_int_add of_int_1)
  ultimately have "\<lfloor>fl x\<rfloor> = k" by (rule floor_unique)
  then show ?thesis by (simp add: x_def k_def)
qed

lemma chunk_eq: "chunk n = unat n div 3"
proof -
  have "unat n < 2 ^ 32" using unsigned_less [of n] by simp
  then have "\<lfloor>fl (of_nat (unat n) / 3)\<rfloor> = int (unat n div 3)" by (rule floor_fl_third)
  then show ?thesis by (simp add: chunk_def Math_floor_def fdiv_def)
qed

lemma pow2_pos: "0 < pow2 e"
  by (simp add: pow2_def)

lemma round_half_even_near: "\<bar>of_int (round_half_even y) - y\<bar> \<le> 1 / 2"
proof -
  have b: "of_int \<lfloor>y\<rfloor> \<le> y" "y < of_int \<lfloor>y\<rfloor> + 1" by linarith+
  show ?thesis
  proof (cases "y - of_int \<lfloor>y\<rfloor> < 1 / 2")
    case True
    then show ?thesis using b by (simp add: round_half_even_def Let_def abs_le_iff)
  next
    case False
    then have "\<bar>of_int (\<lfloor>y\<rfloor> + 1) - y\<bar> \<le> 1 / 2" using b by (simp add: abs_le_iff)
    moreover have "\<bar>of_int \<lfloor>y\<rfloor> - y\<bar> \<le> 1 / 2" if "y - of_int \<lfloor>y\<rfloor> = 1 / 2"
      using that by (simp add: abs_le_iff)
    ultimately show ?thesis using False
      by (auto simp: round_half_even_def Let_def)
  qed
qed

lemma round_half_even_nonneg: "0 \<le> y \<Longrightarrow> 0 \<le> round_half_even y"
  using round_half_even_ge [of 0 y] by simp

lemma pow2_ilog2_le:
  assumes "0 < x"
  shows "pow2 (ilog2 x) \<le> x"
proof (cases "1 \<le> x")
  case True
  then have pos: "0 < \<lfloor>x\<rfloor>" by linarith
  then have b: "1 \<le> bitlen \<lfloor>x\<rfloor>" using bitlen_eq_zero_iff [of "\<lfloor>x\<rfloor>"] bitlen_nonneg [of "\<lfloor>x\<rfloor>"]
    by linarith
  have "(2::int) ^ nat (bitlen \<lfloor>x\<rfloor> - 1) \<le> \<lfloor>x\<rfloor>" using bitlen_bounds [OF pos] by simp
  then have "of_int ((2::int) ^ nat (bitlen \<lfloor>x\<rfloor> - 1)) \<le> (of_int \<lfloor>x\<rfloor> :: rat)"
    by (simp only: of_int_le_iff)
  also have "\<dots> \<le> x" by simp
  finally show ?thesis using True b by (simp add: ilog2_def pow2_def)
next
  case False
  define n where "n = \<lceil>1 / x\<rceil> - 1"
  have "1 < 1 / x" using False assms by simp
  then have n: "0 < n" unfolding n_def by linarith
  have "n < 2 ^ nat (bitlen n)" using bitlen_bounds [OF n] by simp
  then have "\<lceil>1 / x\<rceil> \<le> 2 ^ nat (bitlen n)" unfolding n_def by simp
  then have "(of_int \<lceil>1 / x\<rceil> :: rat) \<le> of_int (2 ^ nat (bitlen n))"
    by (simp only: of_int_le_iff)
  then have "(of_int \<lceil>1 / x\<rceil> :: rat) \<le> 2 ^ nat (bitlen n)" by simp
  then have "1 / x \<le> 2 ^ nat (bitlen n)"
    using le_of_int_ceiling [of "1 / x"] by (rule order_trans [rotated])
  then have "1 / 2 ^ nat (bitlen n) \<le> x"
    using assms by (simp add: field_simps)
  moreover have "0 < bitlen n" using n bitlen_eq_zero_iff [of n] bitlen_nonneg [of n] by linarith
  ultimately show ?thesis using False by (simp add: ilog2_def pow2_def n_def)
qed

lemma pow2_add: "pow2 (a + b) = pow2 a * pow2 b"
proof -
  have "pow2 e = 2 powi e" for e
    by (simp add: pow2_def power_int_def field_simps)
  then show ?thesis by (simp add: power_int_add)
qed

text \<open>Rounding changes a number by at most the fraction \<open>2^-53\<close> of its magnitude.\<close>

lemma fl_error_pos:
  assumes "0 < x"
  shows "\<bar>fl x - x\<bar> \<le> x / 2 ^ 53"
proof -
  define e where "e = ilog2 x - 52"
  define y where "y = x / pow2 e"
  have p: "0 < pow2 e" by (rule pow2_pos)
  have "pow2 (e + 52) \<le> x" using pow2_ilog2_le [OF assms] by (simp add: e_def)
  moreover have "pow2 52 = 2 ^ 52" by (simp add: pow2_def)
  ultimately have "pow2 e * 2 ^ 52 \<le> x" by (simp add: pow2_add)
  then have big: "pow2 e \<le> x / 2 ^ 52" by (simp add: field_simps)
  have flx: "fl x = of_int (round_half_even y) * pow2 e"
    using assms by (simp add: fl_def Let_def e_def y_def)
  have x: "x = y * pow2 e" using p by (simp add: y_def)
  have "\<bar>fl x - x\<bar> = \<bar>of_int (round_half_even y) - y\<bar> * pow2 e"
    unfolding flx using p by (subst x) (simp add: abs_mult left_diff_distrib [symmetric])
  also have "\<dots> \<le> (1 / 2) * pow2 e"
    using round_half_even_near [of y] p by (intro mult_right_mono) simp_all
  also have "\<dots> \<le> (1 / 2) * (x / 2 ^ 52)" using big by simp
  also have "\<dots> = x / 2 ^ 53" by simp
  finally show ?thesis .
qed

lemma fl_nonneg: "0 \<le> x \<Longrightarrow> 0 \<le> fl x"
proof (cases "x = 0")
  case True
  then show ?thesis by (simp add: fl_def)
next
  case False
  assume "0 \<le> x"
  with False have x: "0 < x" by simp
  then have "0 \<le> \<bar>x\<bar> / pow2 (ilog2 \<bar>x\<bar> - 52)"
    using pow2_pos [of "ilog2 \<bar>x\<bar> - 52"] by (simp add: zero_le_divide_iff)
  then have "0 \<le> round_half_even (\<bar>x\<bar> / pow2 (ilog2 \<bar>x\<bar> - 52))"
    by (rule round_half_even_nonneg)
  then show ?thesis using x pow2_pos [of "ilog2 \<bar>x\<bar> - 52"]
    by (simp add: fl_def Let_def)
qed

lemma fl_error: "0 \<le> x \<Longrightarrow> \<bar>fl x - x\<bar> \<le> x / 2 ^ 53"
  using fl_error_pos [of x] by (cases "x = 0") (simp_all add: fl_def)

lemma round_half_even_of_int: "round_half_even (of_int z) = z"
  by (simp add: round_half_even_def Let_def)

lemma ilog2_le_52: "0 < x \<Longrightarrow> x < 2 ^ 53 \<Longrightarrow> ilog2 x \<le> 52"
proof -
  assume x: "0 < x" "x < 2 ^ 53"
  show ?thesis
  proof (cases "1 \<le> x")
    case True
    have "\<lfloor>x\<rfloor> < 2 ^ 53" using x by (simp add: floor_less_iff)
    then have "bitlen \<lfloor>x\<rfloor> \<le> 53" by (simp add: bitlen_le_iff_power)
    with True show ?thesis by (simp add: ilog2_def)
  next
    case False
    then show ?thesis using bitlen_nonneg [of "\<lceil>1 / x\<rceil> - 1"] by (simp add: ilog2_def)
  qed
qed

text \<open>Integers below \<open>2^53\<close> are numbers, so sums and products of pixel coordinates are
  exact.\<close>

lemma fl_of_nat:
  assumes "n < 2 ^ 53"
  shows "fl (of_nat n) = of_nat n"
proof (cases "n = 0")
  case True
  then show ?thesis by (simp add: fl_def)
next
  case False
  define x :: rat where "x = of_nat n"
  define m where "m = nat (52 - ilog2 x)"
  have xpos: "0 < x" using False by (simp add: x_def)
  have "x < 2 ^ 53" using assms unfolding x_def
    by (metis of_nat_less_iff of_nat_numeral of_nat_power)
  then have "ilog2 x \<le> 52" using xpos by (rule ilog2_le_52 [rotated])
  then have p: "pow2 (ilog2 x - 52) = 1 / 2 ^ m"
    by (cases "ilog2 x = 52") (simp_all add: pow2_def m_def)
  have "x / (1 / 2 ^ m) = of_int (int n * 2 ^ m)" by (simp add: x_def)
  then have "round_half_even (x / (1 / 2 ^ m)) = int n * 2 ^ m"
    by (simp only: round_half_even_of_int)
  then have "fl x = of_int (int n * 2 ^ m) * (1 / 2 ^ m)"
    using xpos by (simp add: fl_def Let_def p)
  then show ?thesis by (simp add: x_def)
qed

lemma fmul_of_nat: "a * b < 2 ^ 53 \<Longrightarrow> fmul (of_nat a) (of_nat b) = of_nat (a * b)"
  using fl_of_nat [of "a * b"] by (simp add: fmul_def)

section \<open>The nine regions\<close>

lemma region_pixels_eq:
  "region_pixels r = {sx r..<sx r + sw r} \<times> {sy r..<sy r + sh r}"
  by (simp add: region_pixels_def)

lemma partition_nth:
  "i < 9 \<Longrightarrow> partition_regions W H ! i =
     \<lparr>sx = (i mod 3) * (unat W div 3), sy = (i div 3) * (unat H div 3),
      sw = unat W div 3, sh = unat H div 3\<rparr>"
  by (simp add: partition_regions_def region_of_def chunk_eq Let_def)

text \<open>The loop hands slice \<open>j\<close> the region \<open>j\<close> of this list.\<close>

lemma slice_region_partition:
  "j < 9 \<Longrightarrow>
     slice_region c j = partition_regions (width (mediaInfo c)) (height (mediaInfo c)) ! j"
  by (simp add: slice_region_def partition_regions_def)

lemma grid_cells_disjoint:
  fixes a b :: nat
  assumes "i < 9" "j < 9" "i \<noteq> j"
  shows "({(i mod 3) * a..<(i mod 3) * a + a} \<times> {(i div 3) * b..<(i div 3) * b + b})
       \<inter> ({(j mod 3) * a..<(j mod 3) * a + a} \<times> {(j div 3) * b..<(j div 3) * b + b}) = {}"
proof -
  have step: "{p * n..<p * n + n} \<inter> {q * n..<q * n + n} = {}" if "p \<noteq> q" for p q n :: nat
  proof (cases "p < q")
    case True
    then have "Suc p \<le> q" by simp
    then have "Suc p * n \<le> q * n" by (rule mult_le_mono1)
    then show ?thesis by auto
  next
    case False
    with that have "Suc q \<le> p" by simp
    then have "Suc q * n \<le> p * n" by (rule mult_le_mono1)
    then show ?thesis by auto
  qed
  have "i mod 3 \<noteq> j mod 3 \<or> i div 3 \<noteq> j div 3"
    using assms(3) by (metis div_mult_mod_eq)
  then show ?thesis using step [of "i mod 3" "j mod 3" a] step [of "i div 3" "j div 3" b]
    by auto
qed

text \<open>
  Claim C1. For a medium of width \<open>W \<ge> 3\<close> and height \<open>H \<ge> 3\<close> the loop of
  \<^verbatim>\<open>handleProcess\<close> computes exactly nine regions, in row-major order: region \<open>i\<close> has
  column \<open>i mod 3\<close> and row \<open>i div 3\<close>, width \<open>W div 3\<close>, height \<open>H div 3\<close>, and its
  corner at (column times width, row times height). The nine regions are pairwise disjoint
  and together cover \<open>9 * (W div 3) * (H div 3)\<close> pixels.
\<close>

theorem geometry_partition:
  assumes "3 \<le> unat W" and "3 \<le> unat H"
  shows "length (partition_regions W H) = 9
       \<and> (\<forall>i<9. partition_regions W H ! i =
              \<lparr>sx = (i mod 3) * (unat W div 3), sy = (i div 3) * (unat H div 3),
               sw = unat W div 3, sh = unat H div 3\<rparr>)
       \<and> (\<forall>i<9. \<forall>j<9. i \<noteq> j \<longrightarrow>
              region_pixels (partition_regions W H ! i)
                \<inter> region_pixels (partition_regions W H ! j) = {})
       \<and> card (\<Union>r \<in> set (partition_regions W H). region_pixels r)
           = 9 * (unat W div 3) * (unat H div 3)"
proof -
  let ?R = "\<lambda>i. region_pixels (partition_regions W H ! i)"
  have len: "length (partition_regions W H) = 9" by (simp add: partition_regions_def)
  have disj: "?R i \<inter> ?R j = {}" if "i < 9" "j < 9" "i \<noteq> j" for i j
    using that by (simp add: partition_nth region_pixels_eq grid_cells_disjoint)
  have cardR: "card (?R i) = (unat W div 3) * (unat H div 3)" if "i < 9" for i
    using that by (simp add: partition_nth region_pixels_eq)
  have "(\<Union>r \<in> set (partition_regions W H). region_pixels r) = (\<Union>i \<in> {..<9}. ?R i)"
    using len by (auto simp: set_conv_nth)
  also have "card \<dots> = (\<Sum>i \<in> {..<9}. card (?R i))"
  proof (rule card_UN_disjoint)
    show "finite {..<9::nat}" by simp
    show "\<forall>i\<in>{..<9}. finite (?R i)" by (simp add: region_pixels_def)
    show "\<forall>i\<in>{..<9}. \<forall>j\<in>{..<9}. i \<noteq> j \<longrightarrow> ?R i \<inter> ?R j = {}"
      using disj by simp
  qed
  also have "\<dots> = 9 * (unat W div 3) * (unat H div 3)"
    using cardR by simp
  finally show ?thesis using len disj by (simp add: partition_nth)
qed

theorem geometry_partition_witness:
  "3 \<le> unat (10 :: 32 word) \<and> 3 \<le> unat (7 :: 32 word)
   \<and> partition_regions 10 7 ! 5 = \<lparr>sx = 6, sy = 2, sw = 3, sh = 2\<rparr>
   \<and> card (\<Union>r \<in> set (partition_regions 10 7). region_pixels r) = 54"
  using geometry_partition [of 10 7] by simp


section \<open>The loop of handleProcess\<close>

lemma results_after_0: "results_after w c 0 = replicate 9 None"
  by (simp add: results_after_def)

lemma length_results_after: "n \<le> 9 \<Longrightarrow> length (results_after w c n) = 9"
  by (simp add: results_after_def)

lemma results_after_nth:
  "n \<le> 9 \<Longrightarrow> j < 9 \<Longrightarrow> results_after w c n ! j = (if j < n then slot w c j else None)"
  by (simp add: results_after_def nth_append)

lemma results_after_step:
  assumes "i < 9"
  shows "(results_after w c i)[i := slot w c i] = results_after w c (Suc i)"
proof (rule nth_equalityI)
  show "length ((results_after w c i)[i := slot w c i]) = length (results_after w c (Suc i))"
    using assms by (simp add: length_results_after)
next
  fix j assume "j < length ((results_after w c i)[i := slot w c i])"
  then have j: "j < 9" using assms by (simp add: length_results_after)
  then show "(results_after w c i)[i := slot w c i] ! j = results_after w c (Suc i) ! j"
    using assms by (cases "j = i") (auto simp: results_after_nth length_results_after nth_list_update)
qed

lemma produce_eq: "produce w c j (slice_region c j) = (slice_calls w c j, slice_outcome w c j)"
  by (simp add: slice_calls_def slice_outcome_def)

lemma slot_Some_iff: "slot w c j = Some r \<longleftrightarrow> slice_outcome w c j = Resolved r"
  by (simp add: slot_def split: outcome.splits)

lemma slot_None_iff: "slot w c j = None \<longleftrightarrow> (\<forall>r. slice_outcome w c j \<noteq> Resolved r)"
  by (simp add: slot_def split: outcome.splits)

lemma loop_done:
  "9 \<le> i \<Longrightarrow> process_loop w c cw ch i nr = ([], Returned)"
  by (subst process_loop.simps) simp

lemma loop_rejected:
  assumes "i < 9" "slice_outcome w c i = Rejected err"
  shows "process_loop w c (chunk (width (mediaInfo c))) (chunk (height (mediaInfo c))) i nr
       = (SetStatus (ProcessingSlice (i + 1)) # slice_calls w c i, Threw err)"
  using assms produce_eq [of w c i]
  by (subst process_loop.simps) (simp add: slice_region_def)

lemma loop_pending:
  assumes "i < 9" "slice_outcome w c i = Pending"
  shows "process_loop w c (chunk (width (mediaInfo c))) (chunk (height (mediaInfo c))) i nr
       = (SetStatus (ProcessingSlice (i + 1)) # slice_calls w c i, Suspended)"
  using assms produce_eq [of w c i]
  by (subst process_loop.simps) (simp add: slice_region_def)

lemma loop_resolved:
  assumes "i < 9" "slice_outcome w c i = Resolved r"
  shows "process_loop w c (chunk (width (mediaInfo c))) (chunk (height (mediaInfo c))) i nr
       = (SetStatus (ProcessingSlice (i + 1)) # slice_calls w c i
            @ [SetResults (nr[i := Some r]), SetProgress (progress_after i)]
            @ fst (process_loop w c (chunk (width (mediaInfo c))) (chunk (height (mediaInfo c)))
                     (i + 1) (nr[i := Some r])),
          snd (process_loop w c (chunk (width (mediaInfo c))) (chunk (height (mediaInfo c)))
                     (i + 1) (nr[i := Some r])))"
  using assms produce_eq [of w c i]
  by (subst process_loop.simps) (simp add: slice_region_def progress_after_def Let_def split: prod.split)

lemma loop_blocks:
  assumes "n \<le> 9" "\<forall>j. i \<le> j \<and> j < n \<longrightarrow> slot w c j \<noteq> None"
  shows "i \<le> n \<Longrightarrow>
     process_loop w c (chunk (width (mediaInfo c))) (chunk (height (mediaInfo c))) i
         (results_after w c i)
       = (concat (map (block w c) [i..<n])
            @ fst (process_loop w c (chunk (width (mediaInfo c))) (chunk (height (mediaInfo c))) n
                     (results_after w c n)),
          snd (process_loop w c (chunk (width (mediaInfo c))) (chunk (height (mediaInfo c))) n
                     (results_after w c n)))"
  using assms(2)
proof (induction "n - i" arbitrary: i)
  case 0
  then show ?case by simp
next
  case (Suc k)
  then have i: "i < n" "i < 9" using assms(1) by simp_all
  with Suc.prems obtain r where r: "slot w c i = Some r" by auto
  then have out: "slice_outcome w c i = Resolved r" by (simp add: slot_Some_iff)
  have step: "(results_after w c i)[i := Some r] = results_after w c (Suc i)"
    using results_after_step [OF i(2), of w c] r by simp
  have IH: "process_loop w c (chunk (width (mediaInfo c))) (chunk (height (mediaInfo c))) (Suc i)
         (results_after w c (Suc i))
       = (concat (map (block w c) [Suc i..<n])
            @ fst (process_loop w c (chunk (width (mediaInfo c))) (chunk (height (mediaInfo c))) n
                     (results_after w c n)),
          snd (process_loop w c (chunk (width (mediaInfo c))) (chunk (height (mediaInfo c))) n
                     (results_after w c n)))"
    using Suc.hyps(1) [of "Suc i"] Suc.hyps(2) Suc.prems i by simp
  have upt: "[i..<n] = i # [Suc i..<n]" using i(1) by (rule upt_conv_Cons)
  show ?case
    unfolding upt by (simp add: loop_resolved [OF i(2) out] step IH block_def)
qed

lemma ex_stop:
  "\<exists>n\<le>9. (\<forall>j<n. slot w c j \<noteq> None) \<and> (n < 9 \<longrightarrow> slot w c n = None)"
proof (cases "\<forall>j<9. slot w c j \<noteq> None")
  case True
  then have "(9::nat) \<le> 9 \<and> (\<forall>j<9. slot w c j \<noteq> None) \<and> ((9::nat) < 9 \<longrightarrow> slot w c 9 = None)"
    by simp
  then show ?thesis by (rule exI)
next
  case False
  define n where "n = (LEAST j. slot w c j = None)"
  from False obtain j where j: "j < 9" "slot w c j = None" by blast
  have 1: "slot w c n = None" unfolding n_def using j(2) by (rule LeastI)
  have 2: "n \<le> j" unfolding n_def using j(2) by (rule Least_le)
  have 3: "\<forall>k<n. slot w c k \<noteq> None" unfolding n_def using not_less_Least by blast
  from 1 2 3 j(1) have "n \<le> 9 \<and> (\<forall>j<n. slot w c j \<noteq> None) \<and> (n < 9 \<longrightarrow> slot w c n = None)"
    by simp
  then show ?thesis by (rule exI)
qed

lemma process_run_eq:
  assumes "n \<le> 9" "\<forall>j<n. slot w c j \<noteq> None" "n < 9 \<longrightarrow> slot w c n = None"
  shows "process_run w c =
     [SetIsProcessing True, SetProgress 0, SetResults (replicate 9 None)]
       @ blocks w c n @ ending w c n"
proof -
  let ?L = "\<lambda>i nr. process_loop w c (chunk (width (mediaInfo c))) (chunk (height (mediaInfo c))) i nr"
  have pre: "?L 0 (replicate 9 None)
       = (blocks w c n @ fst (?L n (results_after w c n)), snd (?L n (results_after w c n)))"
    using loop_blocks [of n 0 w c] assms(1,2) by (simp add: results_after_0 blocks_def)
  show ?thesis
  proof (cases "n = 9")
    case True
    then show ?thesis using pre by (simp add: process_run_def loop_done ending_def)
  next
    case False
    then have n: "n < 9" using assms(1) by simp
    with assms(3) have none: "slot w c n = None" by simp
    show ?thesis
    proof (cases "slice_outcome w c n")
      case (Resolved r)
      with none show ?thesis by (simp add: slot_def)
    next
      case (Rejected err)
      then show ?thesis using pre n
        by (simp add: process_run_def loop_rejected [OF n Rejected] ending_def)
    next
      case Pending
      then show ?thesis using pre n
        by (simp add: process_run_def loop_pending [OF n Pending] ending_def)
    qed
  qed
qed

section \<open>Effects of a run on the state\<close>

lemma run_events_append: "run_events s (a @ b) = run_events (run_events s a) b"
  by (simp add: run_events_def)

lemma run_events_Cons: "run_events s (e # es) = run_events (apply_event e s) es"
  by (simp add: run_events_def)

lemma run_events_Nil: "run_events s [] = s"
  by (simp add: run_events_def)

lemma states_after_append:
  "states_after s (a @ b) = states_after s a @ states_after (run_events s a) b"
  by (induction a arbitrary: s) (simp_all add: run_events_Nil run_events_Cons)

lemma slice_calls_cases:
  "slice_calls w c j = [] \<or> slice_calls w c j = [CallSlicer j (slice_region c j)]"
  by (simp add: slice_calls_def produce_def)

lemma run_slice_calls: "run_events s (slice_calls w c j) = s"
  using slice_calls_cases [of w c j] by (auto simp: run_events_Nil run_events_Cons)

lemma states_slice_calls: "set (states_after s (slice_calls w c j)) \<subseteq> {s}"
  using slice_calls_cases [of w c j] by auto

lemma blocks_0: "blocks w c 0 = []"
  by (simp add: blocks_def)

lemma blocks_Suc: "blocks w c (Suc n) = blocks w c n @ block w c n"
  by (simp add: blocks_def)

lemma run_block:
  "run_events s (block w c j)
     = s\<lparr>status := ProcessingSlice (j + 1), results := results_after w c (j + 1),
         progress := progress_after j\<rparr>"
  by (simp add: block_def run_events_Cons run_events_append run_slice_calls run_events_Nil)

text \<open>The state after the reset and the first \<open>n\<close> completed iterations.\<close>

lemma run_blocks:
  "results (run_events s (blocks w c n)) = (if n = 0 then results s else results_after w c n)
   \<and> progress (run_events s (blocks w c n)) = (if n = 0 then progress s else progress_after (n - 1))
   \<and> isProcessing (run_events s (blocks w c n)) = isProcessing s"
  by (induction n) (simp_all add: blocks_0 blocks_Suc run_events_Nil run_events_append run_block)

lemma progress_updates_append [simp]:
  "progress_updates (a @ b) = progress_updates a @ progress_updates b"
  by (simp add: progress_updates_def)

lemma slicer_calls_append [simp]:
  "slicer_calls (a @ b) = slicer_calls a @ slicer_calls b"
  by (simp add: slicer_calls_def)

lemma console_errors_append [simp]:
  "console_errors (a @ b) = console_errors a @ console_errors b"
  by (simp add: console_errors_def)

lemma projections_Nil [simp]:
  "progress_updates [] = []" "slicer_calls [] = []" "console_errors [] = []"
  by (simp_all add: progress_updates_def slicer_calls_def console_errors_def)

lemma projections_slice_calls:
  "progress_updates (slice_calls w c j) = []"
  "console_errors (slice_calls w c j) = []"
  "set (slicer_calls (slice_calls w c j)) \<subseteq> {j}"
  using slice_calls_cases [of w c j]
  by (auto simp: progress_updates_def console_errors_def slicer_calls_def)

lemma projections_block:
  "progress_updates (block w c j) = [progress_after j]"
  "console_errors (block w c j) = []"
  "set (slicer_calls (block w c j)) \<subseteq> {j}"
proof -
  have b: "block w c j = [SetStatus (ProcessingSlice (j + 1))] @ slice_calls w c j
       @ [SetResults (results_after w c (j + 1)), SetProgress (progress_after j)]"
    by (simp add: block_def)
  show "progress_updates (block w c j) = [progress_after j]"
    unfolding b progress_updates_append projections_slice_calls
    by (simp add: progress_updates_def)
  show "console_errors (block w c j) = []"
    unfolding b console_errors_append projections_slice_calls
    by (simp add: console_errors_def)
  show "set (slicer_calls (block w c j)) \<subseteq> {j}"
    unfolding b slicer_calls_append using projections_slice_calls(3) [of w c j]
    by (simp add: slicer_calls_def)
qed

lemma projections_blocks:
  "progress_updates (blocks w c n) = map progress_after [0..<n]"
  "console_errors (blocks w c n) = []"
  "set (slicer_calls (blocks w c n)) \<subseteq> {..<n}"
proof -
  show "progress_updates (blocks w c n) = map progress_after [0..<n]"
    by (induction n) (simp_all add: blocks_0 blocks_Suc projections_block)
  show "console_errors (blocks w c n) = []"
    by (induction n) (simp_all add: blocks_0 blocks_Suc projections_block)
  show "set (slicer_calls (blocks w c n)) \<subseteq> {..<n}"
  proof (induction n)
    case 0
    then show ?case by (simp add: blocks_0)
  next
    case (Suc n)
    then show ?case using projections_block(3) [of w c n]
      by (auto simp: blocks_Suc)
  qed
qed

lemma image_state_simps [simp]:
  "file image_state = Some (File ''photo.png'' ''image/png'')"
  "mode image_state = IMAGE"
  "results image_state = replicate 9 None"
  "mediaInfo image_state = \<lparr>duration = 0, width = 10, height = 7\<rparr>"
  by (simp_all add: image_state_def handleFileChange_def initial_state_def startsWith_def)

lemma image_ready: "\<not> not_ready image_state"
  by (simp add: not_ready_def)

lemma image_outcome:
  "slice_outcome (image_world bad) image_state j =
     (if bad = Some j then Rejected (Error (Text ''canvas failure''))
      else Resolved \<lparr>blob = Blob j, url = UrlOfBlob (Blob j)\<rparr>)"
  by (simp add: slice_outcome_def produce_def sliceImage_def image_world_def)

lemma image_slot:
  "slot (image_world bad) image_state j =
     (if bad = Some j then None else Some \<lparr>blob = Blob j, url = UrlOfBlob (Blob j)\<rparr>)"
  by (simp add: slot_def image_outcome)

lemma handleProcess_eq:
  assumes "\<not> not_ready s" "n \<le> 9" "\<forall>j<n. slot w s j \<noteq> None" "n < 9 \<longrightarrow> slot w s n = None"
  shows "handleProcess_events w s =
     [SetIsProcessing True, SetProgress 0, SetResults (replicate 9 None)]
       @ blocks w s n @ ending w s n"
  using assms by (simp add: handleProcess_events_def process_run_eq [of n w s])

lemma after_blocks_fields:
  "results (after_blocks w s n) = results_after w s n"
  "progress (after_blocks w s n) = (if n = 0 then 0 else progress_after (n - 1))"
  "isProcessing (after_blocks w s n) = True"
  unfolding after_blocks_def run_events_append
  using run_blocks [of "run_events s [SetIsProcessing True, SetProgress 0, SetResults (replicate 9 None)]" w s n]
  by (simp_all add: run_events_Cons run_events_Nil results_after_0)

lemma run_ending_rejected:
  assumes "n < 9" "slice_outcome w s n = Rejected err"
  shows "run_events t (ending w s n) =
     t\<lparr>status := ProcessFailed (message_or_unknown err), isProcessing := False\<rparr>"
  using assms
  by (simp add: ending_def run_events_Cons run_events_append run_slice_calls run_events_Nil)

lemma projections_Cons:
  "progress_updates (e # es) = (case e of SetProgress p \<Rightarrow> [p] | _ \<Rightarrow> []) @ progress_updates es"
  "slicer_calls (e # es) = (case e of CallSlicer i r \<Rightarrow> [i] | _ \<Rightarrow> []) @ slicer_calls es"
  "console_errors (e # es) = (case e of ConsoleError err \<Rightarrow> [err] | _ \<Rightarrow> []) @ console_errors es"
  by (simp_all add: progress_updates_def slicer_calls_def console_errors_def)

lemma projections_ending_rejected:
  assumes "n < 9" "slice_outcome w s n = Rejected err"
  shows "console_errors (ending w s n) = [err]"
    and "progress_updates (ending w s n) = []"
    and "set (slicer_calls (ending w s n)) \<subseteq> {n}"
  using assms projections_slice_calls [of w s n]
  by (simp_all add: ending_def projections_Cons)

lemma handleDownloadAll_incomplete:
  "None \<in> set (results s) \<Longrightarrow> handleDownloadAll w s = (s, None)"
  by (auto simp: handleDownloadAll_def)

lemma run_rejected:
  assumes "\<not> not_ready s" and "i < 9" and "\<forall>j<i. slot w s j \<noteq> None"
    and "slice_outcome w s i = Rejected err"
  shows "results (handleProcess w s) = results_after w s i
       \<and> (\<forall>j<9. (results (handleProcess w s) ! j = None) = (i \<le> j))
       \<and> status (handleProcess w s) = ProcessFailed (message_or_unknown err)
       \<and> console_errors (handleProcess_events w s) = [err]
       \<and> \<not> isProcessing (handleProcess w s)
       \<and> (\<forall>j \<in> set (slicer_calls (handleProcess_events w s)). j \<le> i)
       \<and> handleDownloadAll w' (handleProcess w s) = (handleProcess w s, None)"
proof -
  have none: "slot w s i = None" using assms(4) by (simp add: slot_def)
  have ev: "handleProcess_events w s =
     [SetIsProcessing True, SetProgress 0, SetResults (replicate 9 None)]
       @ blocks w s i @ ending w s i"
    using assms(1,2,3) none by (intro handleProcess_eq) simp_all
  have "handleProcess w s =
     run_events s (([SetIsProcessing True, SetProgress 0, SetResults (replicate 9 None)]
       @ blocks w s i) @ ending w s i)"
    unfolding handleProcess_def ev by simp
  also have "\<dots> = run_events (after_blocks w s i) (ending w s i)"
    unfolding after_blocks_def by (rule run_events_append)
  also have "\<dots> =
     (after_blocks w s i)\<lparr>status := ProcessFailed (message_or_unknown err), isProcessing := False\<rparr>"
    using assms(2,4) by (rule run_ending_rejected)
  finally have fin: "handleProcess w s =
     (after_blocks w s i)\<lparr>status := ProcessFailed (message_or_unknown err), isProcessing := False\<rparr>" .
  have res: "results (handleProcess w s) = results_after w s i"
    by (simp add: fin after_blocks_fields)
  have nth: "(results (handleProcess w s) ! j = None) = (i \<le> j)" if "j < 9" for j
    using that assms(2,3) by (auto simp: res results_after_nth)
  have "results (handleProcess w s) ! i = None" using nth [of i] assms(2) by simp
  moreover have "i < length (results (handleProcess w s))"
    using assms(2) by (simp add: res length_results_after)
  ultimately have "None \<in> set (results (handleProcess w s))" by (metis nth_mem)
  then have dl: "handleDownloadAll w' (handleProcess w s) = (handleProcess w s, None)"
    by (rule handleDownloadAll_incomplete)
  have cons: "console_errors (handleProcess_events w s) = [err]"
    unfolding ev
    by (simp add: projections_blocks projections_ending_rejected [OF assms(2,4)] projections_Cons)
  have calls: "j \<le> i" if "j \<in> set (slicer_calls (handleProcess_events w s))" for j
  proof -
    have "set (slicer_calls (handleProcess_events w s))
        \<subseteq> set (slicer_calls (blocks w s i)) \<union> set (slicer_calls (ending w s i))"
      unfolding ev by (simp add: projections_Cons)
    with that have "j \<in> set (slicer_calls (blocks w s i)) \<union> set (slicer_calls (ending w s i))"
      by blast
    then have "j < i \<or> j = i"
      using projections_blocks(3) [of w s i] projections_ending_rejected(3) [OF assms(2,4)]
      by blast
    then show ?thesis by auto
  qed
  show ?thesis using res nth cons calls dl by (simp add: fin)
qed

section \<open>Failure of a slice\<close>

text \<open>
  Claim C3, as amended. If the production of slice \<open>i\<close> is the first to fail, the run
  stops there: no slicer is invoked for a later slice, the result set keeps exactly the
  slots before \<open>i\<close> and so is not complete, the error is logged and the status shows the
  failure with the message of the error (a generic text when the message is empty), the
  processing flag is cleared, and \<^verbatim>\<open>handleDownloadAll\<close> does nothing on the final state.
  The status and the log do not name the slice index.
\<close>

theorem slice_failure_aborts:
  assumes "\<not> not_ready s" and "i < 9" and "\<forall>j<i. slot w s j \<noteq> None"
    and "slice_outcome w s i = Rejected err"
  shows "results (handleProcess w s) = results_after w s i
       \<and> (\<forall>j<9. (results (handleProcess w s) ! j = None) = (i \<le> j))
       \<and> status (handleProcess w s) = ProcessFailed (message_or_unknown err)
       \<and> console_errors (handleProcess_events w s) = [err]
       \<and> \<not> isProcessing (handleProcess w s)
       \<and> (\<forall>j \<in> set (slicer_calls (handleProcess_events w s)). j \<le> i)
       \<and> handleDownloadAll w' (handleProcess w s) = (handleProcess w s, None)"
  using assms by (rule run_rejected)

text \<open>The report of a failure is the same whichever slice failed.\<close>

lemma image_failure:
  assumes "i < 9"
  shows "failure_report (image_world (Some i)) image_state
     = (ProcessFailed (Text ''canvas failure''), [Error (Text ''canvas failure'')])"
proof -
  have h3: "\<forall>j<i. slot (image_world (Some i)) image_state j \<noteq> None"
    by (simp add: image_slot)
  have h4: "slice_outcome (image_world (Some i)) image_state i
      = Rejected (Error (Text ''canvas failure''))"
    by (simp add: image_outcome)
  show ?thesis
    using run_rejected [OF image_ready assms h3 h4]
    by (simp add: failure_report_def message_or_unknown_def)
qed

theorem failure_report_counterexample:
  "slice_outcome (image_world (Some 0)) image_state 0 = Rejected (Error (Text ''canvas failure''))
   \<and> slice_outcome (image_world (Some 4)) image_state 4 = Rejected (Error (Text ''canvas failure''))
   \<and> results (handleProcess (image_world (Some 0)) image_state) ! 0 = None
   \<and> results (handleProcess (image_world (Some 4)) image_state) ! 0 \<noteq> None
   \<and> results (handleProcess (image_world (Some 4)) image_state) ! 4 = None
   \<and> failure_report (image_world (Some 0)) image_state
       = (ProcessFailed (Text ''canvas failure''), [Error (Text ''canvas failure'')])
   \<and> failure_report (image_world (Some 4)) image_state
       = (ProcessFailed (Text ''canvas failure''), [Error (Text ''canvas failure'')])"
proof -
  have o0: "slice_outcome (image_world (Some 0)) image_state 0
      = Rejected (Error (Text ''canvas failure''))"
    and o4: "slice_outcome (image_world (Some 4)) image_state 4
      = Rejected (Error (Text ''canvas failure''))"
    by (simp_all add: image_outcome)
  have lt4: "(4::nat) < 9" by simp
  have p0: "\<forall>j<0. slot (image_world (Some 0)) image_state j \<noteq> None" by simp
  have p4: "\<forall>j<4. slot (image_world (Some 4)) image_state j \<noteq> None"
    by (simp add: image_slot)
  have "\<forall>j<9. (results (handleProcess (image_world (Some 0)) image_state) ! j = None) = (0 \<le> j)"
    using run_rejected [OF image_ready zero_less_numeral p0 o0, of "image_world None"] by blast
  then have r0: "results (handleProcess (image_world (Some 0)) image_state) ! 0 = None"
    by simp
  have "\<forall>j<9. (results (handleProcess (image_world (Some 4)) image_state) ! j = None) = (4 \<le> j)"
    using run_rejected [OF image_ready lt4 p4 o4, of "image_world None"] by blast
  then have r4: "results (handleProcess (image_world (Some 4)) image_state) ! 0 \<noteq> None"
    "results (handleProcess (image_world (Some 4)) image_state) ! 4 = None"
    by simp_all
  show ?thesis using o0 o4 r0 r4 by (simp add: image_failure)
qed

theorem slice_failure_aborts_witness:
  "\<not> not_ready image_state \<and> (4::nat) < 9
   \<and> list_all (\<lambda>j. slot (image_world (Some 4)) image_state j \<noteq> None) [0, 1, 2, 3]
   \<and> slice_outcome (image_world (Some 4)) image_state 4 = Rejected (Error (Text ''canvas failure''))
   \<and> results (handleProcess (image_world (Some 4)) image_state)
       = results_after (image_world (Some 4)) image_state 4
   \<and> status (handleProcess (image_world (Some 4)) image_state)
       = ProcessFailed (message_or_unknown (Error (Text ''canvas failure'')))
   \<and> handleDownloadAll (image_world None) (handleProcess (image_world (Some 4)) image_state)
       = (handleProcess (image_world (Some 4)) image_state, None)"
proof -
  have h3: "\<forall>j<4. slot (image_world (Some 4)) image_state j \<noteq> None"
    by (simp add: image_slot)
  have h4: "slice_outcome (image_world (Some 4)) image_state 4
      = Rejected (Error (Text ''canvas failure''))"
    by (simp add: image_outcome)
  have h2: "(4::nat) < 9" by simp
  note c = slice_failure_aborts [OF image_ready h2 h3 h4, of "image_world None"]
  show ?thesis using c image_ready h4 by (simp add: image_slot)
qed

section \<open>Progress\<close>

lemma floor_rat_numeral: "\<lfloor>numeral a / numeral b :: rat\<rfloor> = numeral a div numeral b"
  using floor_divide_of_int_eq [of "numeral a" "numeral b", where ?'a = rat] by simp

lemma progress_values:
  "progress_after 0 = 3127499741229511 / 281474976710656"
  "progress_after 1 = 3127499741229511 / 140737488355328"
  "progress_after 2 = 2345624805922133 / 70368744177664"
  "progress_after 3 = 3127499741229511 / 70368744177664"
  "progress_after 4 = 3909374676536889 / 70368744177664"
  "progress_after 5 = 2345624805922133 / 35184372088832"
  "progress_after 6 = 5473124547151645 / 70368744177664"
  "progress_after 7 = 3127499741229511 / 35184372088832"
  "progress_after 8 = 100"
  by code_simp+

lemma below_9_cases:
  "i < 9 \<Longrightarrow> i = 0 \<or> i = 1 \<or> i = 2 \<or> i = 3 \<or> i = 4 \<or> i = 5 \<or> i = 6 \<or> i = 7 \<or> i = (8::nat)"
  by arith

lemma progress_after_bounds:
  assumes "i < 9"
  shows "0 < progress_after i \<and> progress_after i \<le> 100
       \<and> Math_round (progress_after i) = \<lfloor>of_nat (i + 1) / 9 * 100 + 1 / (2::rat)\<rfloor>"
  using below_9_cases [OF assms]
  by (elim disjE; hypsubst)
     (simp_all add: progress_values progress_values(2) [unfolded One_nat_def]
        Math_round_def floor_rat_numeral)

lemma progress_after_step:
  assumes "i < 8"
  shows "progress_after i < progress_after (i + 1)"
proof -
  have "i = 0 \<or> i = 1 \<or> i = 2 \<or> i = 3 \<or> i = 4 \<or> i = 5 \<or> i = 6 \<or> i = 7"
    using assms by arith
  then show ?thesis
    by (elim disjE; hypsubst)
       (simp_all add: progress_values progress_values(2) [unfolded One_nat_def]
          numeral_2_eq_2 [symmetric])
qed

lemma progress_after_mono:
  "i < j \<Longrightarrow> j < 9 \<Longrightarrow> progress_after i < progress_after j"
proof (induction j)
  case 0
  then show ?case by simp
next
  case (Suc j)
  have step: "progress_after j < progress_after (Suc j)"
    using progress_after_step [of j] Suc.prems(2) by simp
  show ?case
  proof (cases "i = j")
    case True
    then show ?thesis using step by simp
  next
    case False
    then have "progress_after i < progress_after j" using Suc by simp
    then show ?thesis using step by simp
  qed
qed

lemma handleProcess_split:
  assumes "\<not> not_ready s" "n \<le> 9" "\<forall>j<n. slot w s j \<noteq> None" "n < 9 \<longrightarrow> slot w s n = None"
  shows "handleProcess w s = run_events (after_blocks w s n) (ending w s n)"
proof -
  have "handleProcess w s =
     run_events s (([SetIsProcessing True, SetProgress 0, SetResults (replicate 9 None)]
       @ blocks w s n) @ ending w s n)"
    unfolding handleProcess_def handleProcess_eq [OF assms] by simp
  also have "\<dots> = run_events (after_blocks w s n) (ending w s n)"
    unfolding after_blocks_def by (rule run_events_append)
  finally show ?thesis .
qed

lemma ending_keeps:
  "progress (run_events t (ending w s n)) = progress t"
  "results (run_events t (ending w s n)) = results t"
  by (simp_all add: ending_def run_events_Cons run_events_append run_slice_calls run_events_Nil
        split: outcome.splits)

lemma progress_updates_ending: "progress_updates (ending w s n) = []"
  using projections_slice_calls(1) [of w s n]
  by (simp add: ending_def projections_Cons split: outcome.splits)

lemma progress_updates_run:
  assumes "\<not> not_ready s" "n \<le> 9" "\<forall>j<n. slot w s j \<noteq> None" "n < 9 \<longrightarrow> slot w s n = None"
  shows "progress_updates (handleProcess_events w s) = 0 # map progress_after [0..<n]"
  unfolding handleProcess_eq [OF assms]
  by (simp add: projections_Cons projections_blocks progress_updates_ending)

text \<open>
  Claim C4, as amended. The run sets the progress to 0 and then once after each completed
  slice, to \<open>((i + 1) / 9) * 100\<close> as the double arithmetic of the program computes it,
  not rounded to an integer. These values lie in the interval from 0 to 100, increase
  strictly with \<open>i\<close>, round to \<open>round((i + 1) / 9 * 100)\<close>, and the last one, after all nine
  slices, is exactly 100.
\<close>

theorem progress_reporting:
  assumes "\<not> not_ready s"
  shows "(\<exists>n\<le>9. (\<forall>j<n. slot w s j \<noteq> None) \<and> (n < 9 \<longrightarrow> slot w s n = None)
            \<and> progress_updates (handleProcess_events w s) = 0 # map progress_after [0..<n]
            \<and> (n = 9 \<longrightarrow> progress (handleProcess w s) = 100))
       \<and> (\<forall>i<9. progress_after i = fmul (fdiv (of_nat (i + 1)) 9) 100
               \<and> 0 < progress_after i \<and> progress_after i \<le> 100
               \<and> Math_round (progress_after i) = \<lfloor>of_nat (i + 1) / 9 * 100 + 1 / (2::rat)\<rfloor>)
       \<and> (\<forall>i j. i < j \<and> j < 9 \<longrightarrow> progress_after i < progress_after j)
       \<and> progress_after 8 = 100"
proof -
  obtain n where n: "n \<le> 9" "\<forall>j<n. slot w s j \<noteq> None" "n < 9 \<longrightarrow> slot w s n = None"
    using ex_stop [of w s] by blast
  have upd: "progress_updates (handleProcess_events w s) = 0 # map progress_after [0..<n]"
    using assms n by (rule progress_updates_run)
  have fin: "progress (handleProcess w s) = 100" if "n = 9"
    using that by (simp add: handleProcess_split [OF assms n] ending_keeps after_blocks_fields
        progress_values)
  have run: "\<exists>n\<le>9. (\<forall>j<n. slot w s j \<noteq> None) \<and> (n < 9 \<longrightarrow> slot w s n = None)
            \<and> progress_updates (handleProcess_events w s) = 0 # map progress_after [0..<n]
            \<and> (n = 9 \<longrightarrow> progress (handleProcess w s) = 100)"
    using n upd fin by blast
  have vals: "\<forall>i<9. progress_after i = fmul (fdiv (of_nat (i + 1)) 9) 100
               \<and> 0 < progress_after i \<and> progress_after i \<le> 100
               \<and> Math_round (progress_after i) = \<lfloor>of_nat (i + 1) / 9 * 100 + 1 / (2::rat)\<rfloor>"
    using progress_after_bounds by (simp add: progress_after_def)
  have mono: "\<forall>i j. i < j \<and> j < 9 \<longrightarrow> progress_after i < progress_after j"
    using progress_after_mono by blast
  show ?thesis using run vals mono progress_values(9) by blast
qed

lemma image_all_resolve: "\<forall>j<n. slot (image_world None) image_state j \<noteq> None"
  by (simp add: image_slot)

theorem progress_rounding_counterexample:
  "slot (image_world None) image_state 0 \<noteq> None
   \<and> progress_updates (handleProcess_events (image_world None) image_state) ! 1
       = 3127499741229511 / 281474976710656
   \<and> Math_round (3127499741229511 / 281474976710656) = 11
   \<and> (3127499741229511 / 281474976710656 :: rat) \<noteq> 11"
proof -
  have "progress_updates (handleProcess_events (image_world None) image_state)
      = 0 # map progress_after [0..<9]"
    using image_ready _ image_all_resolve by (rule progress_updates_run) simp_all
  then have "progress_updates (handleProcess_events (image_world None) image_state) ! 1
      = progress_after 0"
    by simp
  then show ?thesis
    by (simp add: progress_values image_slot Math_round_def floor_rat_numeral)
qed

theorem progress_reporting_witness:
  "\<not> not_ready image_state
   \<and> (\<exists>n\<le>9. progress_updates (handleProcess_events (image_world None) image_state)
              = 0 # map progress_after [0..<n])
   \<and> progress_after 8 = 100"
  using progress_reporting [OF image_ready, of "image_world None"] image_ready by blast

section \<open>Selecting a file and the guard of handleProcess\<close>

text \<open>
  Claim C9. Whatever the state, a completed or a failed run included, selecting a file
  empties the nine slots of the result set and sets the progress to 0.
\<close>

theorem reselect_resets:
  "results (handleFileChange (Some f) s) = replicate 9 None
   \<and> progress (handleFileChange (Some f) s) = 0"
  by (simp add: handleFileChange_def)

theorem reselect_resets_witness:
  "results (handleFileChange (Some (File ''clip.mp4'' ''video/mp4''))
      (handleProcess (image_world None) image_state)) = replicate 9 None
   \<and> progress (handleFileChange (Some (File ''clip.mp4'' ''video/mp4''))
      (handleProcess (image_world None) image_state)) = 0"
  by (rule reselect_resets)

text \<open>
  Claim C10. When no file is selected, or the mode is VIDEO and the GIF worker has not
  been loaded, \<^verbatim>\<open>handleProcess\<close> returns at its guard: it calls no setter and no slicer,
  so the state, and with it the result set and the progress, is unchanged. The second copy
  of the component sets only the status text there.
\<close>

theorem not_ready_is_noop:
  assumes "file s = None \<or> (mode s = VIDEO \<and> workerBlobUrl s = None)"
  shows "handleProcess_events w s = [] \<and> handleProcess w s = s
       \<and> results (handleProcess w s) = results s \<and> progress (handleProcess w s) = progress s
       \<and> slicer_calls (handleProcess_events w s) = []
       \<and> handleProcess_events' w s = [SetStatus ResourcesNotReady]
       \<and> results (handleProcess' w s) = results s \<and> progress (handleProcess' w s) = progress s
       \<and> slicer_calls (handleProcess_events' w s) = []"
  using assms
  by (simp add: handleProcess_events_def handleProcess_events'_def handleProcess_def
      handleProcess'_def not_ready_def run_events_def slicer_calls_def)

theorem not_ready_is_noop_witness:
  "(file initial_state = None \<or> (mode initial_state = VIDEO \<and> workerBlobUrl initial_state = None))
   \<and> handleProcess (video_world None) initial_state = initial_state
   \<and> slicer_calls (handleProcess_events (video_world None) initial_state) = []"
proof -
  have h: "file initial_state = None \<or> (mode initial_state = VIDEO \<and> workerBlobUrl initial_state = None)"
    by (simp add: initial_state_def)
  show ?thesis using not_ready_is_noop [OF h, of "video_world None"] h by blast
qed

text \<open>
  Claim C5, as amended. \<^verbatim>\<open>handleFileChange\<close> does not look for an unsupported content
  type: a file whose type is neither image/* nor video/* is taken as a video. The file and
  a preview URL for it are stored, the mode becomes VIDEO, the status text is cleared and no
  message is shown; the result set and the progress are reset, and selecting the file
  starts no processing.
\<close>

theorem unsupported_file_is_accepted:
  assumes "\<not> supported_type (file_type f)"
  shows "file (handleFileChange (Some f) s) = Some f
       \<and> previewUrl (handleFileChange (Some f) s) = Some (UrlOfFile f)
       \<and> mode (handleFileChange (Some f) s) = VIDEO
       \<and> status (handleFileChange (Some f) s) = NoStatus
       \<and> results (handleFileChange (Some f) s) = replicate 9 None
       \<and> progress (handleFileChange (Some f) s) = 0
       \<and> isProcessing (handleFileChange (Some f) s) = isProcessing s"
  using assms by (simp add: handleFileChange_def supported_type_def)

theorem unsupported_file_counterexample:
  "\<not> supported_type ''application/pdf''
   \<and> file image_state \<noteq> Some (File ''notes.pdf'' ''application/pdf'')
   \<and> mode image_state = IMAGE
   \<and> file (handleFileChange (Some (File ''notes.pdf'' ''application/pdf'')) image_state)
       = Some (File ''notes.pdf'' ''application/pdf'')
   \<and> previewUrl (handleFileChange (Some (File ''notes.pdf'' ''application/pdf'')) image_state)
       = Some (UrlOfFile (File ''notes.pdf'' ''application/pdf''))
   \<and> mode (handleFileChange (Some (File ''notes.pdf'' ''application/pdf'')) image_state) = VIDEO
   \<and> status (handleFileChange (Some (File ''notes.pdf'' ''application/pdf'')) image_state)
       = NoStatus"
  by (simp add: handleFileChange_def supported_type_def startsWith_def)

theorem unsupported_file_is_accepted_witness:
  "\<not> supported_type (file_type (File ''notes.pdf'' ''application/pdf''))
   \<and> mode (handleFileChange (Some (File ''notes.pdf'' ''application/pdf'')) image_state) = VIDEO
   \<and> status (handleFileChange (Some (File ''notes.pdf'' ''application/pdf'')) image_state)
       = NoStatus"
proof -
  have h: "\<not> supported_type (file_type (File ''notes.pdf'' ''application/pdf''))"
    by (simp add: supported_type_def startsWith_def)
  show ?thesis using unsupported_file_is_accepted [OF h, of image_state] h by blast
qed

section \<open>The result set during a run\<close>

lemma in_order_append:
  "in_order a (xs @ ys) = (in_order a xs \<and> in_order (last (a # xs)) ys)"
  by (induction xs arbitrary: a) simp_all

lemma in_order_replicate: "in_order a (replicate k a)"
  by (induction k) simp_all

lemma last_results_states:
  "last (results t # map results (states_after t es)) = results (run_events t es)"
  by (induction es arbitrary: t) (simp_all add: run_events_Nil run_events_Cons)

lemma results_slice_calls:
  "map results (states_after t (slice_calls w c j))
     = replicate (length (slice_calls w c j)) (results t)"
  using slice_calls_cases [of w c j] by auto

lemma results_block:
  "map results (states_after t (block w c j))
     = results t # replicate (length (slice_calls w c j)) (results t)
         @ [results_after w c (j + 1), results_after w c (j + 1)]"
  by (simp add: block_def states_after_append results_slice_calls run_events_Cons
      run_slice_calls)

lemma takeWhile_filled:
  assumes "\<forall>x \<in> set xs. x \<noteq> None"
  shows "takeWhile (\<lambda>r. r \<noteq> None) (xs @ replicate k None) = xs"
proof -
  have "takeWhile (\<lambda>r. r \<noteq> None) (replicate k None) = ([] :: 'a option list)"
    by (cases k) simp_all
  then show ?thesis using assms by (simp add: takeWhile_append2)
qed

lemma filled_count_results_after:
  assumes "\<forall>j<k. slot w c j \<noteq> None"
  shows "filled_count (results_after w c k) = k"
proof -
  have "\<forall>x \<in> set (map (slot w c) [0..<k]). x \<noteq> None" using assms by auto
  then have "takeWhile (\<lambda>r. r \<noteq> None) (map (slot w c) [0..<k] @ replicate (9 - k) None)
      = map (slot w c) [0..<k]"
    by (rule takeWhile_filled)
  then show ?thesis
    unfolding filled_count_def results_after_def by simp
qed

lemma prefix_filled_results_after:
  assumes "k \<le> 9" "\<forall>j<k. slot w c j \<noteq> None"
  shows "prefix_filled (results_after w c k)"
  unfolding prefix_filled_def filled_count_results_after [OF assms(2)]
  using assms(1) by (simp add: results_after_def list_all_iff)

lemma fills_next_results_after:
  assumes "j < 9" "\<forall>k<j + 1. slot w c k \<noteq> None"
  shows "fills_next (results_after w c j) (results_after w c (j + 1))"
proof -
  have fc: "filled_count (results_after w c j) = j"
    using assms(2) by (intro filled_count_results_after) simp
  have nth: "results_after w c (Suc j) ! j = slot w c j"
    using assms(1) by (simp add: results_after_nth)
  have some: "slot w c j \<noteq> None" using assms(2) by simp
  have "results_after w c (Suc j) = (results_after w c j)[j := results_after w c (Suc j) ! j]"
    unfolding nth by (rule results_after_step [OF assms(1), symmetric])
  then show ?thesis
    using assms(1) some by (simp add: fills_next_def fc nth length_results_after)
qed

lemma trace_block:
  assumes "j < 9" "\<forall>k<j + 1. slot w c k \<noteq> None" "results t = results_after w c j"
  shows "in_order (results_after w c j) (map results (states_after t (block w c j)))"
    and "\<forall>rs \<in> set (map results (states_after t (block w c j))). prefix_filled rs"
proof -
  have pj: "prefix_filled (results_after w c j)"
    using assms(1,2) by (intro prefix_filled_results_after) simp_all
  have pj1: "prefix_filled (results_after w c (j + 1))"
    using assms(1,2) by (intro prefix_filled_results_after) simp_all
  show "in_order (results_after w c j) (map results (states_after t (block w c j)))"
    unfolding results_block assms(3)
    using fills_next_results_after [OF assms(1,2)]
    by (simp add: in_order_append in_order_replicate)
  show "\<forall>rs \<in> set (map results (states_after t (block w c j))). prefix_filled rs"
    unfolding results_block assms(3) using pj pj1 by auto
qed

lemma trace_blocks:
  assumes "results t = results_after w c 0"
  shows "n \<le> 9 \<Longrightarrow> \<forall>j<n. slot w c j \<noteq> None \<Longrightarrow>
     in_order (results_after w c 0) (map results (states_after t (blocks w c n)))
     \<and> (\<forall>rs \<in> set (map results (states_after t (blocks w c n))). prefix_filled rs)"
proof (induction n)
  case 0
  then show ?case by (simp add: blocks_0)
next
  case (Suc n)
  let ?t' = "run_events t (blocks w c n)"
  have IH: "in_order (results_after w c 0) (map results (states_after t (blocks w c n)))"
    "\<forall>rs \<in> set (map results (states_after t (blocks w c n))). prefix_filled rs"
    using Suc by simp_all
  have rt': "results ?t' = results_after w c n"
    using run_blocks [of t w c n] assms by (cases "n = 0") simp_all
  have n: "n < 9" "\<forall>k<n + 1. slot w c k \<noteq> None" using Suc.prems by simp_all
  have last: "last (results_after w c 0 # map results (states_after t (blocks w c n)))
      = results_after w c n"
    using last_results_states [of t "blocks w c n"] rt' assms by simp
  show ?case
    using IH trace_block [OF n rt'] last
    by (simp add: blocks_Suc states_after_append in_order_append del: in_order.simps) blast
qed

lemma results_unchanged:
  assumes "\<forall>rs. SetResults rs \<notin> set es"
  shows "map results (states_after t es) = replicate (length es) (results t)"
  using assms
proof (induction es arbitrary: t)
  case Nil
  then show ?case by simp
next
  case (Cons e es)
  then have "results (apply_event e t) = results t" by (cases e) auto
  with Cons show ?case by simp
qed

lemma ending_no_results: "SetResults rs \<notin> set (ending w c n)"
  using slice_calls_cases [of w c n] by (auto simp: ending_def split: outcome.splits)

lemma results_ending:
  "map results (states_after t (ending w c n)) = replicate (length (ending w c n)) (results t)"
  by (rule results_unchanged) (simp add: ending_no_results)

text \<open>
  Claim C8. In a run that passes the guard, the third effect is the reset of the result set
  to nine empty slots (the two before it set the processing flag and the progress). From
  then on, in every state the run passes through, the filled slots are exactly the first
  ones, and each state's result set is that of the state before or fills its first empty
  slot and nothing else: slots are written in index order and a filled slot is never
  written again.
\<close>

theorem result_set_filled_in_order:
  assumes "\<not> not_ready s"
  shows "drop 2 (states_after s (handleProcess_events w s)) \<noteq> []
       \<and> results (hd (drop 2 (states_after s (handleProcess_events w s)))) = replicate 9 None
       \<and> (\<forall>t \<in> set (drop 2 (states_after s (handleProcess_events w s))).
             prefix_filled (results t))
       \<and> in_order (replicate 9 None)
             (map results (drop 3 (states_after s (handleProcess_events w s))))"
proof -
  obtain n where n: "n \<le> 9" "\<forall>j<n. slot w s j \<noteq> None" "n < 9 \<longrightarrow> slot w s n = None"
    using ex_stop [of w s] by blast
  define s3 where "s3 = s\<lparr>isProcessing := True, progress := 0, results := replicate 9 None\<rparr>"
  define t' where "t' = run_events s3 (blocks w s n)"
  let ?A = "map results (states_after s3 (blocks w s n))"
  let ?B = "map results (states_after t' (ending w s n))"
  have r3: "results s3 = results_after w s 0" by (simp add: s3_def results_after_0)
  have ev: "handleProcess_events w s =
     SetIsProcessing True # SetProgress 0 # SetResults (replicate 9 None)
       # (blocks w s n @ ending w s n)"
    using handleProcess_eq [OF assms n] by simp
  have d2: "drop 2 (states_after s (handleProcess_events w s))
      = s3 # states_after s3 (blocks w s n @ ending w s n)"
    unfolding ev by (simp add: s3_def)
  have d3: "drop 3 (states_after s (handleProcess_events w s))
      = states_after s3 (blocks w s n @ ending w s n)"
    unfolding ev by (simp add: s3_def)
  have split: "map results (states_after s3 (blocks w s n @ ending w s n)) = ?A @ ?B"
    by (simp add: states_after_append t'_def)
  have rt': "results t' = results_after w s n"
    unfolding t'_def using run_blocks [of s3 w s n] r3 by (cases "n = 0") simp_all
  have A: "in_order (results_after w s 0) ?A" "\<forall>rs \<in> set ?A. prefix_filled rs"
    using trace_blocks [OF r3 n(1,2)] by simp_all
  have B: "?B = replicate (length (ending w s n)) (results_after w s n)"
    using results_ending [of t' w s n] rt' by simp
  have last: "last (results_after w s 0 # ?A) = results_after w s n"
    using last_results_states [of s3 "blocks w s n"] r3 rt' by (simp add: t'_def)
  have pn: "prefix_filled (results_after w s n)"
    using n(1,2) by (rule prefix_filled_results_after)
  have p0: "prefix_filled (results_after w s 0)"
    by (rule prefix_filled_results_after) simp_all
  have ord: "in_order (results_after w s 0) (?A @ ?B)"
    unfolding in_order_append last using A(1) by (simp add: B in_order_replicate)
  have all: "\<forall>rs \<in> set (?A @ ?B). prefix_filled rs"
    using A(2) pn by (auto simp: B)
  have "\<forall>t \<in> set (drop 2 (states_after s (handleProcess_events w s))). prefix_filled (results t)"
    unfolding d2 using all p0 r3 split
    by (metis (no_types, lifting) image_eqI list.set_map set_ConsD)
  moreover have "in_order (replicate 9 None)
      (map results (drop 3 (states_after s (handleProcess_events w s))))"
    unfolding d3 split using ord by (simp add: results_after_0)
  ultimately show ?thesis using d2 by (simp add: s3_def)
qed

theorem result_set_filled_in_order_witness:
  "\<not> not_ready image_state
   \<and> results (hd (drop 2 (states_after image_state
        (handleProcess_events (image_world (Some 4)) image_state)))) = replicate 9 None
   \<and> in_order (replicate 9 None)
       (map results (drop 3 (states_after image_state
          (handleProcess_events (image_world (Some 4)) image_state))))"
  using result_set_filled_in_order [OF image_ready, of "image_world (Some 4)"] image_ready
  by blast

section \<open>The sampling loop\<close>

lemma seekTo_in_time: "seekTo r = (if in_time r then Inr () else Inl (Error SeekTimeout))"
  by (simp add: seekTo_def in_time_def split: seek_response.splits)

lemma in_time_iff: "in_time r \<longleftrightarrow> (\<exists>ms<5000. r = SeekedAfter ms)"
  by (cases r) (simp_all add: in_time_def)

text \<open>One iteration of the sampling loop.\<close>

lemma frame_loop_done:
  "\<not> f < T \<Longrightarrow> frame_loop seek draw add r s T step f t acc = Inr acc"
  by (subst frame_loop.simps) simp

lemma frame_loop_timeout:
  "f < T \<Longrightarrow> \<not> in_time (seek (nat f) t) \<Longrightarrow>
     frame_loop seek draw add r s T step f t acc = Inl (Error SeekTimeout)"
  by (subst frame_loop.simps) (simp add: seekTo_in_time)

lemma frame_loop_throws:
  "f < T \<Longrightarrow> in_time (seek (nat f) t) \<Longrightarrow> \<not> captured seek draw add r s (nat f) t \<Longrightarrow>
     \<exists>err. frame_loop seek draw add r s T step f t acc = Inl err"
  by (subst frame_loop.simps) (auto simp: seekTo_in_time captured_def split: option.splits)

lemma frame_loop_last:
  "f < T \<Longrightarrow> captured seek draw add r s (nat f) t \<Longrightarrow> endTime s < fadd t step \<Longrightarrow>
     frame_loop seek draw add r s T step f t acc
       = Inr (acc @ [\<lparr>frame_time = t, frame_region = r, frame_delay = fdiv 1000 (fps s)\<rparr>])"
  by (subst frame_loop.simps) (simp add: seekTo_in_time captured_def)

lemma frame_loop_next:
  "f < T \<Longrightarrow> captured seek draw add r s (nat f) t \<Longrightarrow> \<not> endTime s < fadd t step \<Longrightarrow>
     frame_loop seek draw add r s T step f t acc
       = frame_loop seek draw add r s T step (f + 1) (fadd t step)
           (acc @ [\<lparr>frame_time = t, frame_region = r, frame_delay = fdiv 1000 (fps s)\<rparr>])"
  by (subst frame_loop.simps) (simp add: seekTo_in_time captured_def)

lemma accumulates_single: "accumulates step e [t]"
  by (simp add: accumulates_def)

lemma accumulates_Cons:
  assumes "accumulates step e ts" "ts \<noteq> []" "hd ts = fadd t step" "hd ts \<le> e"
  shows "accumulates step e (t # ts)"
  unfolding accumulates_def
proof (intro allI impI)
  fix k assume k: "k + 1 < length (t # ts)"
  show "(t # ts) ! (k + 1) = fadd ((t # ts) ! k) step \<and> (t # ts) ! (k + 1) \<le> e"
  proof (cases k)
    case 0
    then show ?thesis using assms(2,3,4) by (simp add: hd_conv_nth)
  next
    case (Suc j)
    then have "j + 1 < length ts" using k by simp
    then have "ts ! (j + 1) = fadd (ts ! j) step \<and> ts ! (j + 1) \<le> e"
      using assms(1) unfolding accumulates_def by blast
    then show ?thesis using Suc by simp
  qed
qed

lemma captured_seekTo: "captured seek draw add r s f t \<Longrightarrow> seekTo (seek f t) = Inr ()"
  by (simp add: captured_def seekTo_in_time)

lemma captured_draw: "captured seek draw add r s f t \<Longrightarrow> draw f t r = None"
  by (simp add: captured_def)

lemma captured_add:
  "captured seek draw add r s f t \<Longrightarrow>
     add f \<lparr>frame_time = t, frame_region = r, frame_delay = fdiv 1000 (fps s)\<rparr> = None"
  by (simp add: captured_def)

lemma frame_loop_captured:
  "\<forall>f t. captured seek draw add r s f t \<Longrightarrow>
   \<exists>ts. frame_loop seek draw add r s T step f t acc
             = Inr (acc @ map (\<lambda>u. \<lparr>frame_time = u, frame_region = r,
                                     frame_delay = fdiv 1000 (fps s)\<rparr>) ts)
          \<and> int (length ts) \<le> max 0 (T - f)
          \<and> (f < T \<longrightarrow> ts \<noteq> [] \<and> hd ts = t)
          \<and> accumulates step (endTime s) ts
          \<and> (ts \<noteq> [] \<and> int (length ts) < T - f \<longrightarrow> endTime s < fadd (last ts) step)"
proof (induction seek draw add r s T step f t acc rule: frame_loop.induct)
  case (1 seek draw add r s T step f t acc)
  let ?mk = "\<lambda>u. \<lparr>frame_time = u, frame_region = r, frame_delay = fdiv 1000 (fps s)\<rparr>"
  show ?case
  proof (cases "f < T")
    case False
    then have "frame_loop seek draw add r s T step f t acc = Inr (acc @ map ?mk [])"
      by (simp add: frame_loop_done)
    then show ?thesis using False by (intro exI [of _ "[]"]) (simp add: accumulates_def)
  next
    case True
    have it: "captured seek draw add r s (nat f) t" using "1.prems" by simp
    show ?thesis
    proof (cases "endTime s < fadd t step")
      case stop: True
      have "frame_loop seek draw add r s T step f t acc = Inr (acc @ map ?mk [t])"
        using True it stop by (simp add: frame_loop_last)
      then show ?thesis using True stop
        by (intro exI [of _ "[t]"]) (simp add: accumulates_single)
    next
      case go: False
      from "1.IH" [OF True captured_seekTo [OF it] captured_draw [OF it] captured_add [OF it]
          refl refl go "1.prems"]
      obtain ts where ts:
        "frame_loop seek draw add r s T step (f + 1) (fadd t step) (acc @ [?mk t])
           = Inr ((acc @ [?mk t]) @ map ?mk ts)"
        "int (length ts) \<le> max 0 (T - (f + 1))"
        "f + 1 < T \<longrightarrow> ts \<noteq> [] \<and> hd ts = fadd t step"
        "accumulates step (endTime s) ts"
        "ts \<noteq> [] \<and> int (length ts) < T - (f + 1) \<longrightarrow> endTime s < fadd (last ts) step"
        by blast
      have eq: "frame_loop seek draw add r s T step f t acc = Inr (acc @ map ?mk (t # ts))"
        using True it go ts(1) by (simp add: frame_loop_next)
      have len: "int (length (t # ts)) \<le> max 0 (T - f)" using ts(2) True by simp
      have empty: "ts = []" if "\<not> f + 1 < T" using ts(2) that by simp
      have acc: "accumulates step (endTime s) (t # ts)"
      proof (cases "ts = []")
        case True
        then show ?thesis by (simp add: accumulates_single)
      next
        case False
        with empty have "f + 1 < T" by blast
        with ts(3) have "hd ts = fadd t step" by simp
        with go ts(4) False show ?thesis by (intro accumulates_Cons) simp_all
      qed
      have early: "endTime s < fadd (last (t # ts)) step"
        if "int (length (t # ts)) < T - f"
      proof (cases "ts = []")
        case True
        with that have "f + 1 < T" by simp
        with ts(3) True show ?thesis by simp
      next
        case False
        with that ts(5) show ?thesis by simp
      qed
      show ?thesis using eq len acc early True
        by (intro exI [of _ "t # ts"]) simp
    qed
  qed
qed

lemma video_totalFrames: "totalFrames_of video_settings = 10"
  by code_simp

lemma short_totalFrames: "totalFrames_of short_settings = 1"
  by code_simp

lemma step_10: "fdiv 1 10 = 3602879701896397 / 36028797018963968"
  by code_simp

lemma short_end: "fl (1 / 20) = 3602879701896397 / 72057594037927936"
  by code_simp

lemma accumulated_tenths:
  "fadd 0 (3602879701896397 / 36028797018963968) = 3602879701896397 / 36028797018963968"
  "fadd (3602879701896397 / 36028797018963968) (3602879701896397 / 36028797018963968)
     = 3602879701896397 / 18014398509481984"
  "fadd (3602879701896397 / 18014398509481984) (3602879701896397 / 36028797018963968)
     = 1351079888211149 / 4503599627370496"
  "fadd (1351079888211149 / 4503599627370496) (3602879701896397 / 36028797018963968)
     = 3602879701896397 / 9007199254740992"
  "fadd (3602879701896397 / 9007199254740992) (3602879701896397 / 36028797018963968)
     = 1 / 2"
  "fadd (1 / 2) (3602879701896397 / 36028797018963968)
     = 5404319552844595 / 9007199254740992"
  "fadd (5404319552844595 / 9007199254740992) (3602879701896397 / 36028797018963968)
     = 3152519739159347 / 4503599627370496"
  "fadd (3152519739159347 / 4503599627370496) (3602879701896397 / 36028797018963968)
     = 7205759403792793 / 9007199254740992"
  "fadd (7205759403792793 / 9007199254740992) (3602879701896397 / 36028797018963968)
     = 2026619832316723 / 2251799813685248"
  "fadd (2026619832316723 / 2251799813685248) (3602879701896397 / 36028797018963968)
     = 9007199254740991 / 9007199254740992"
  by code_simp+

text \<open>The doubles the loop reaches for \<^verbatim>\<open>{startTime: 0, endTime: 1, fps: 10}\<close>: they
  print as 0, 0.1, 0.2, 0.30000000000000004, 0.4, 0.5, 0.6, 0.7, 0.7999999999999999 and
  0.8999999999999999.\<close>

lemma video_frames:
  assumes "\<forall>f t. captured seek draw add r video_settings f t"
  shows "\<exists>frames. sample_frames seek draw add r video_settings = Inr frames
     \<and> map frame_time frames =
         [0, 3602879701896397 / 36028797018963968, 3602879701896397 / 18014398509481984,
          1351079888211149 / 4503599627370496, 3602879701896397 / 9007199254740992, 1 / 2,
          5404319552844595 / 9007199254740992, 3152519739159347 / 4503599627370496,
          7205759403792793 / 9007199254740992, 2026619832316723 / 2251799813685248]"
  using assms
  by (simp add: sample_frames_def video_totalFrames Let_def)
     (simp add: video_settings_def step_10 frame_loop_next frame_loop_done accumulated_tenths)

lemma short_frames:
  assumes "\<forall>f t. captured seek draw add r short_settings f t"
  shows "\<exists>frames. sample_frames seek draw add r short_settings = Inr frames
     \<and> map frame_time frames = [0]"
  using assms
  by (simp add: sample_frames_def short_totalFrames Let_def)
     (simp add: short_settings_def step_10 frame_loop_next frame_loop_last frame_loop_done
        accumulated_tenths short_end)

text \<open>Each of them is within \<open>2^-53\<close> of the tenth it stands for.\<close>

lemma tenths_near:
  assumes "k < 10"
  shows "\<bar>[0, 3602879701896397 / 36028797018963968, 3602879701896397 / 18014398509481984,
          1351079888211149 / 4503599627370496, 3602879701896397 / 9007199254740992, 1 / 2,
          5404319552844595 / 9007199254740992, 3152519739159347 / 4503599627370496,
          7205759403792793 / 9007199254740992, 2026619832316723 / 2251799813685248] ! k
         - of_nat k / (10 :: rat)\<bar> \<le> 1 / 2 ^ 53"
proof -
  from assms
  have "k = 0 \<or> k = 1 \<or> k = 2 \<or> k = 3 \<or> k = 4 \<or> k = 5 \<or> k = 6 \<or> k = 7 \<or> k = 8 \<or> k = 9"
    by arith
  then show ?thesis by (elim disjE) simp_all
qed

text \<open>The accumulated times stay within rounding distance of \<open>s + k * d\<close>.\<close>

lemma accumulates_error:
  assumes acc: "accumulates step e ts" and ne: "ts \<noteq> []" and hd: "hd ts = s"
    and s: "0 \<le> s" "s \<le> e" and step: "0 \<le> step" "step \<le> 2"
    and d: "\<bar>step - d\<bar> \<le> 1 / 2 ^ 53"
  shows "k < length ts \<Longrightarrow>
     \<bar>ts ! k - (s + of_nat k * d)\<bar> \<le> of_nat k * ((e + 3) / 2 ^ 53)
     \<and> 0 \<le> ts ! k \<and> ts ! k \<le> e"
proof (induction k)
  case 0
  have "ts ! 0 = s" using ne hd by (simp add: hd_conv_nth)
  then show ?case using s by simp
next
  case (Suc k)
  then have IH: "\<bar>ts ! k - (s + of_nat k * d)\<bar> \<le> of_nat k * ((e + 3) / 2 ^ 53)"
    "0 \<le> ts ! k" "ts ! k \<le> e"
    by simp_all
  let ?a = "ts ! k + step"
  have nxt: "ts ! Suc k = fl ?a" "ts ! Suc k \<le> e"
    using acc Suc.prems unfolding accumulates_def fadd_def by (auto simp: Suc_eq_plus1 [symmetric])
  have a: "0 \<le> ?a" "?a \<le> e + 2" using IH(2,3) step by simp_all
  have "\<bar>fl ?a - ?a\<bar> \<le> ?a / 2 ^ 53" using a(1) by (rule fl_error)
  also have "\<dots> \<le> (e + 2) / 2 ^ 53" using a(2) by (simp add: divide_right_mono)
  finally have r: "\<bar>fl ?a - ?a\<bar> \<le> (e + 2) / 2 ^ 53" .
  have eq: "ts ! Suc k - (s + of_nat (Suc k) * d)
      = (fl ?a - ?a) + (ts ! k - (s + of_nat k * d)) + (step - d)"
    unfolding nxt(1) by (simp add: algebra_simps)
  have tri: "\<bar>u + v + w\<bar> \<le> \<bar>u\<bar> + \<bar>v\<bar> + \<bar>w\<bar>" for u v w :: rat
    by linarith
  have "\<bar>ts ! Suc k - (s + of_nat (Suc k) * d)\<bar>
      \<le> \<bar>fl ?a - ?a\<bar> + \<bar>ts ! k - (s + of_nat k * d)\<bar> + \<bar>step - d\<bar>"
    unfolding eq by (rule tri)
  also have "\<dots> \<le> (e + 2) / 2 ^ 53 + of_nat k * ((e + 3) / 2 ^ 53) + 1 / 2 ^ 53"
    using r IH(1) d by (intro add_mono)
  also have "\<dots> = of_nat (Suc k) * ((e + 3) / 2 ^ 53)"
    by (simp add: field_simps)
  finally have "\<bar>ts ! Suc k - (s + of_nat (Suc k) * d)\<bar> \<le> of_nat (Suc k) * ((e + 3) / 2 ^ 53)" .
  moreover have "0 \<le> ts ! Suc k" unfolding nxt(1) using a(1) by (rule fl_nonneg)
  ultimately show ?case using nxt(2) by simp
qed

lemma step_bounds:
  assumes "0 < q" "q \<in> \<int>"
  shows "0 \<le> fdiv 1 q" "fdiv 1 q \<le> 2" "\<bar>fdiv 1 q - 1 / q\<bar> \<le> 1 / 2 ^ 53"
proof -
  from assms obtain z :: int where z: "q = of_int z" "0 < z" by (auto elim: Ints_cases)
  then have "1 \<le> z" by simp
  then have "(1::rat) \<le> of_int z" by (simp only: of_int_1_le_iff)
  then have one: "1 \<le> q" using z(1) by simp
  then have inv: "0 < 1 / q" "1 / q \<le> 1" by simp_all
  have err: "\<bar>fl (1 / q) - 1 / q\<bar> \<le> (1 / q) / 2 ^ 53"
    using inv(1) by (rule fl_error_pos)
  also have "\<dots> \<le> 1 / 2 ^ 53" using inv(2) by (simp add: divide_right_mono)
  finally show e: "\<bar>fdiv 1 q - 1 / q\<bar> \<le> 1 / 2 ^ 53" by (simp add: fdiv_def)
  show "0 \<le> fdiv 1 q" using inv(1) by (simp add: fdiv_def fl_nonneg)
  have "fdiv 1 q - 1 / q \<le> 1 / 2 ^ 53" using e by (rule order_trans [OF abs_ge_self])
  then have "fdiv 1 q \<le> 1 / q + 1 / 2 ^ 53" by simp
  then show "fdiv 1 q \<le> 2" using inv(2) by simp
qed

lemma totalFrames_pos: "1 \<le> totalFrames_of s"
  by (simp add: totalFrames_of_def Let_def)

lemma sample_frames_captured:
  assumes "\<forall>f t. captured seek draw add r s f t"
  shows "\<exists>frames. sample_frames seek draw add r s = Inr frames
     \<and> 1 \<le> length frames
     \<and> int (length frames) \<le> totalFrames_of s
     \<and> frame_time (frames ! 0) = startTime s
     \<and> accumulates (fdiv 1 (fps s)) (endTime s) (map frame_time frames)
     \<and> (int (length frames) < totalFrames_of s
          \<longrightarrow> endTime s < fadd (frame_time (last frames)) (fdiv 1 (fps s)))"
proof -
  let ?mk = "\<lambda>u. \<lparr>frame_time = u, frame_region = r, frame_delay = fdiv 1000 (fps s)\<rparr>"
  from frame_loop_captured [OF assms, of "totalFrames_of s" "fdiv 1 (fps s)" 0 "startTime s" "[]"]
  obtain ts where ts:
    "frame_loop seek draw add r s (totalFrames_of s) (fdiv 1 (fps s)) 0 (startTime s) []
       = Inr (map ?mk ts)"
    "int (length ts) \<le> max 0 (totalFrames_of s - 0)"
    "0 < totalFrames_of s \<longrightarrow> ts \<noteq> [] \<and> hd ts = startTime s"
    "accumulates (fdiv 1 (fps s)) (endTime s) ts"
    "ts \<noteq> [] \<and> int (length ts) < totalFrames_of s - 0
       \<longrightarrow> endTime s < fadd (last ts) (fdiv 1 (fps s))"
    by auto
  have ne: "ts \<noteq> []" and hd: "hd ts = startTime s"
    using ts(3) totalFrames_pos [of s] by simp_all
  have times: "map frame_time (map ?mk ts) = ts" by (simp add: comp_def)
  have "sample_frames seek draw add r s = Inr (map ?mk ts)"
    using ts(1) by (simp add: sample_frames_def Let_def)
  moreover have "1 \<le> length (map ?mk ts)" using ne by (cases ts) simp_all
  moreover have "int (length (map ?mk ts)) \<le> totalFrames_of s"
    using ts(2) totalFrames_pos [of s] by simp
  moreover have "frame_time (map ?mk ts ! 0) = startTime s"
    using ne hd by (cases ts) simp_all
  moreover have "accumulates (fdiv 1 (fps s)) (endTime s) (map frame_time (map ?mk ts))"
    unfolding times by (rule ts(4))
  moreover have "int (length (map ?mk ts)) < totalFrames_of s
      \<longrightarrow> endTime s < fadd (frame_time (last (map ?mk ts))) (fdiv 1 (fps s))"
    using ts(5) ne by (simp add: last_map)
  ultimately show ?thesis by blast
qed

lemma video_frames_near:
  assumes "\<forall>f t. captured seek draw add r video_settings f t"
  shows "\<exists>frames. sample_frames seek draw add r video_settings = Inr frames
     \<and> length frames = 10
     \<and> (\<forall>k<10. \<bar>frame_time (frames ! k) - of_nat k / 10\<bar> \<le> 1 / 2 ^ 53)
     \<and> map frame_time frames =
         [0, 3602879701896397 / 36028797018963968, 3602879701896397 / 18014398509481984,
          1351079888211149 / 4503599627370496, 3602879701896397 / 9007199254740992, 1 / 2,
          5404319552844595 / 9007199254740992, 3152519739159347 / 4503599627370496,
          7205759403792793 / 9007199254740992, 2026619832316723 / 2251799813685248]"
proof -
  let ?L = "[0, 3602879701896397 / 36028797018963968, 3602879701896397 / 18014398509481984,
          1351079888211149 / 4503599627370496, 3602879701896397 / 9007199254740992, 1 / 2,
          5404319552844595 / 9007199254740992, 3152519739159347 / 4503599627370496,
          7205759403792793 / 9007199254740992, 2026619832316723 / 2251799813685248] :: rat list"
  obtain frames where fr: "sample_frames seek draw add r video_settings = Inr frames"
    "map frame_time frames = ?L"
    using video_frames [OF assms] by (elim exE conjE)
  have "length (map frame_time frames) = 10" unfolding fr(2) by simp
  then have len: "length frames = 10" by simp
  have near: "\<forall>k<10. \<bar>frame_time (frames ! k) - of_nat k / 10\<bar> \<le> 1 / 2 ^ 53"
  proof (intro allI impI)
    fix k :: nat assume k: "k < 10"
    have "frame_time (frames ! k) = map frame_time frames ! k"
      using k len by (simp add: nth_map)
    then have "frame_time (frames ! k) = ?L ! k" unfolding fr(2) .
    then show "\<bar>frame_time (frames ! k) - of_nat k / 10\<bar> \<le> 1 / 2 ^ 53"
      using tenths_near [OF k] by (simp only:)
  qed
  show ?thesis by (intro exI [of _ frames] conjI fr(1) len near fr(2))
qed

text \<open>
  Claim C2. For settings with \<open>0 \<le> startTime < endTime\<close> and a positive integer \<open>fps\<close>,
  when every seek is answered before the timer and neither drawing a frame nor adding it
  to the encoder throws, the sampler captures at least one frame and at most
  \<open>max(1, floor(max(0.1, endTime - startTime) * fps))\<close> frames. The first is at
  \<open>startTime\<close> and each further one at the time of the one before plus \<open>1 / fps\<close>, sums
  and quotient being those of doubles, so frame \<open>k\<close> is at \<open>startTime + k / fps\<close> up to
  rounding: within \<open>k * (endTime + 3) / 2^53\<close> of it. No frame is
  at a time beyond \<open>endTime\<close>, and fewer frames than the bound are captured only when the
  next time exceeds \<open>endTime\<close>. For \<open>{startTime: 0, endTime: 1, fps: 10}\<close> there are
  exactly 10 frames, frame \<open>k\<close> within \<open>2^-53\<close> of \<open>k / 10\<close>, at the doubles listed; for
  \<open>endTime: 0.05\<close> there is exactly one frame, at 0.
\<close>

theorem frame_sampling:
  assumes "0 \<le> startTime s" and "startTime s < endTime s"
    and "0 < fps s" and "fps s \<in> \<int>"
    and "\<forall>f t. in_time (seek f t)"
    and "\<forall>f t. draw f t r = None"
    and "\<forall>f fr. add f fr = None"
  shows "(\<exists>frames. sample_frames seek draw add r s = Inr frames
           \<and> 1 \<le> length frames
           \<and> int (length frames)
               \<le> max 1 (Math_floor (fmul (max (fl (1 / 10)) (fsub (endTime s) (startTime s)))
                                         (fps s)))
           \<and> frame_time (frames ! 0) = startTime s
           \<and> (\<forall>k. k + 1 < length frames \<longrightarrow>
                  frame_time (frames ! (k + 1))
                    = fadd (frame_time (frames ! k)) (fdiv 1 (fps s))
                  \<and> frame_time (frames ! (k + 1)) \<le> endTime s)
           \<and> (\<forall>k<length frames.
                  \<bar>frame_time (frames ! k) - (startTime s + of_nat k / fps s)\<bar>
                    \<le> of_nat k * ((endTime s + 3) / 2 ^ 53))
           \<and> (int (length frames)
                 < max 1 (Math_floor (fmul (max (fl (1 / 10)) (fsub (endTime s) (startTime s)))
                                          (fps s)))
                \<longrightarrow> endTime s < fadd (frame_time (last frames)) (fdiv 1 (fps s))))
       \<and> (\<exists>frames. sample_frames seek draw add r video_settings = Inr frames
           \<and> length frames = 10
           \<and> (\<forall>k<10. \<bar>frame_time (frames ! k) - of_nat k / 10\<bar> \<le> 1 / 2 ^ 53)
           \<and> map frame_time frames =
               [0, 3602879701896397 / 36028797018963968, 3602879701896397 / 18014398509481984,
                1351079888211149 / 4503599627370496, 3602879701896397 / 9007199254740992,
                1 / 2, 5404319552844595 / 9007199254740992,
                3152519739159347 / 4503599627370496, 7205759403792793 / 9007199254740992,
                2026619832316723 / 2251799813685248])
       \<and> (\<exists>frames. sample_frames seek draw add r short_settings = Inr frames
           \<and> map frame_time frames = [0])"
proof -
  have cap: "\<forall>f t. captured seek draw add r s' f t" for s'
    using assms(5,6,7) by (simp add: captured_def)
  obtain frames where fr:
    "sample_frames seek draw add r s = Inr frames" "1 \<le> length frames"
    "int (length frames) \<le> totalFrames_of s" "frame_time (frames ! 0) = startTime s"
    "accumulates (fdiv 1 (fps s)) (endTime s) (map frame_time frames)"
    "int (length frames) < totalFrames_of s
       \<longrightarrow> endTime s < fadd (frame_time (last frames)) (fdiv 1 (fps s))"
    using sample_frames_captured [OF cap, of s] by blast
  have tf: "totalFrames_of s
      = max 1 (Math_floor (fmul (max (fl (1 / 10)) (fsub (endTime s) (startTime s))) (fps s)))"
    by (simp add: totalFrames_of_def Let_def)
  have chain: "frame_time (frames ! (k + 1)) = fadd (frame_time (frames ! k)) (fdiv 1 (fps s))
      \<and> frame_time (frames ! (k + 1)) \<le> endTime s" if "k + 1 < length frames" for k
    using fr(5) that unfolding accumulates_def by (auto simp: nth_map)
  have c_all: "\<forall>k. k + 1 < length frames \<longrightarrow>
                  frame_time (frames ! (k + 1))
                    = fadd (frame_time (frames ! k)) (fdiv 1 (fps s))
                  \<and> frame_time (frames ! (k + 1)) \<le> endTime s"
    using chain by blast
  note le = fr(3) [unfolded tf] and stop = fr(6) [unfolded tf]
  have near: "\<forall>k<length frames.
      \<bar>frame_time (frames ! k) - (startTime s + of_nat k / fps s)\<bar>
        \<le> of_nat k * ((endTime s + 3) / 2 ^ 53)"
  proof (intro allI impI)
    fix k assume k: "k < length frames"
    have ne: "map frame_time frames \<noteq> []" using fr(2) by auto
    have hd: "hd (map frame_time frames) = startTime s"
      using fr(2,4) by (cases frames) simp_all
    have se: "startTime s \<le> endTime s" using assms(2) by simp
    note sb = step_bounds [OF assms(3,4)]
    have "\<bar>map frame_time frames ! k - (startTime s + of_nat k * (1 / fps s))\<bar>
        \<le> of_nat k * ((endTime s + 3) / 2 ^ 53)"
      using accumulates_error [OF fr(5) ne hd assms(1) se sb, of k] k by simp
    then show "\<bar>frame_time (frames ! k) - (startTime s + of_nat k / fps s)\<bar>
        \<le> of_nat k * ((endTime s + 3) / 2 ^ 53)"
      using k by simp
  qed
  have general: "\<exists>frames. sample_frames seek draw add r s = Inr frames
           \<and> 1 \<le> length frames
           \<and> int (length frames)
               \<le> max 1 (Math_floor (fmul (max (fl (1 / 10)) (fsub (endTime s) (startTime s)))
                                         (fps s)))
           \<and> frame_time (frames ! 0) = startTime s
           \<and> (\<forall>k. k + 1 < length frames \<longrightarrow>
                  frame_time (frames ! (k + 1))
                    = fadd (frame_time (frames ! k)) (fdiv 1 (fps s))
                  \<and> frame_time (frames ! (k + 1)) \<le> endTime s)
           \<and> (\<forall>k<length frames.
                  \<bar>frame_time (frames ! k) - (startTime s + of_nat k / fps s)\<bar>
                    \<le> of_nat k * ((endTime s + 3) / 2 ^ 53))
           \<and> (int (length frames)
                 < max 1 (Math_floor (fmul (max (fl (1 / 10)) (fsub (endTime s) (startTime s)))
                                          (fps s)))
                \<longrightarrow> endTime s < fadd (frame_time (last frames)) (fdiv 1 (fps s)))"
    by (intro exI [of _ frames] conjI fr(1) fr(2) le fr(4) c_all near stop)
  show ?thesis
    by (intro conjI general video_frames_near [OF cap] short_frames [OF cap])
qed

lemma video_state_simps [simp]:
  "file video_state = Some (File ''clip.mp4'' ''video/mp4'')"
  "mode video_state = VIDEO"
  "settings video_state = video_settings"
  "workerBlobUrl video_state = Some (UrlOfBlob (Blob 0))"
  by (simp_all add: video_state_def handleFileChange_def initial_state_def startsWith_def)

lemma video_ready: "\<not> not_ready video_state"
  by (simp add: not_ready_def)

lemma video_world_simps [simp]:
  "videoRef_current (video_world late) = True"
  "window_GIF (video_world late) = True"
  "window_JSZip (video_world late) = True"
  "video_seek (video_world late) i f t = (if late = Some (i, f) then NeverSeeked else SeekedAfter 20)"
  "ctx_drawImage (video_world late) i f t r = None"
  "gif_addFrame (video_world late) i f fr = None"
  "gif_render (video_world late) i q frames = Resolved (Blob (i + 1))"
  "zip_generateAsync (video_world late) z = Resolved (Blob 10)"
  by (simp_all add: video_world_def)

theorem frame_sampling_witness:
  "0 \<le> startTime video_settings \<and> startTime video_settings < endTime video_settings
   \<and> 0 < fps video_settings \<and> fps video_settings \<in> \<int>
   \<and> (\<forall>f t. in_time (video_seek (video_world None) 4 f t))
   \<and> (\<forall>f t. ctx_drawImage (video_world None) 4 f t (region_of 213 120 4) = None)
   \<and> (\<forall>f fr. gif_addFrame (video_world None) 4 f fr = None)
   \<and> (\<exists>frames. sample_frames (video_seek (video_world None) 4)
                   (ctx_drawImage (video_world None) 4) (gif_addFrame (video_world None) 4)
                   (region_of 213 120 4) video_settings = Inr frames
         \<and> length frames = 10 \<and> frame_time (frames ! 0) = startTime video_settings)"
proof -
  let ?W = "video_world None"
  have h: "0 \<le> startTime video_settings" "startTime video_settings < endTime video_settings"
    "0 < fps video_settings" "fps video_settings \<in> \<int>"
    by (simp_all add: video_settings_def)
  have ok: "\<forall>f t. in_time (video_seek ?W 4 f t)"
    "\<forall>f t. ctx_drawImage ?W 4 f t (region_of 213 120 4) = None"
    "\<forall>f fr. gif_addFrame ?W 4 f fr = None"
    by (simp_all add: in_time_def)
  note c = frame_sampling [where s = video_settings and seek = "video_seek ?W 4"
      and draw = "ctx_drawImage ?W 4" and add = "gif_addFrame ?W 4"
      and r = "region_of 213 120 4", OF h ok]
  obtain frames where fr:
    "sample_frames (video_seek ?W 4) (ctx_drawImage ?W 4) (gif_addFrame ?W 4)
       (region_of 213 120 4) video_settings = Inr frames"
    "frame_time (frames ! 0) = startTime video_settings"
    using c [THEN conjunct1] by (elim exE conjE)
  obtain frames' where fr':
    "sample_frames (video_seek ?W 4) (ctx_drawImage ?W 4) (gif_addFrame ?W 4)
       (region_of 213 120 4) video_settings = Inr frames'"
    "length frames' = 10"
    using c [THEN conjunct2, THEN conjunct1] by (elim exE conjE)
  have "frames' = frames" using fr(1) fr'(1) by simp
  then have len: "length frames = 10" using fr'(2) by simp
  have "\<exists>frames. sample_frames (video_seek ?W 4) (ctx_drawImage ?W 4) (gif_addFrame ?W 4)
                   (region_of 213 120 4) video_settings = Inr frames
         \<and> length frames = 10 \<and> frame_time (frames ! 0) = startTime video_settings"
    by (intro exI [of _ frames] conjI fr(1) len fr(2))
  then show ?thesis using h ok by (intro conjI)
qed

section \<open>Seek timeouts and errors of the encoder\<close>

lemma ideal_captured:
  "\<forall>f t. captured (\<lambda>f t. SeekedAfter 0) (\<lambda>f t r. None) (\<lambda>f fr. None) r s f t"
  by (simp add: captured_def in_time_def)

text \<open>
  The loop follows the schedule of the run in which every frame is captured up to the
  first frame that is not; there it ends with an error, which is the seek timeout when
  the seek of that frame is late.
\<close>

lemma frame_loop_fails:
  "0 \<le> f \<Longrightarrow>
   frame_loop (\<lambda>f t. SeekedAfter 0) (\<lambda>f t r. None) (\<lambda>f fr. None) r0 s T step f t acc0 = Inr fs0 \<Longrightarrow>
   k < length fs0 - length acc0 \<Longrightarrow>
   \<forall>j<k. captured seek draw add r s (nat f + j) (frame_time (fs0 ! (length acc0 + j))) \<Longrightarrow>
   \<not> captured seek draw add r s (nat f + k) (frame_time (fs0 ! (length acc0 + k))) \<Longrightarrow>
   (\<exists>err. frame_loop seek draw add r s T step f t acc = Inl err)
   \<and> (\<not> in_time (seek (nat f + k) (frame_time (fs0 ! (length acc0 + k))))
        \<longrightarrow> frame_loop seek draw add r s T step f t acc = Inl (Error SeekTimeout))"
proof (induction seek draw add r s T step f t acc arbitrary: acc0 fs0 k rule: frame_loop.induct)
  case (1 seek draw add r s T step f t acc)
  let ?mkz = "\<lambda>u. \<lparr>frame_time = u, frame_region = r0, frame_delay = fdiv 1000 (fps s)\<rparr>"
  let ?mk = "\<lambda>u. \<lparr>frame_time = u, frame_region = r, frame_delay = fdiv 1000 (fps s)\<rparr>"
  let ?seek0 = "\<lambda>(f::nat) (t::number). SeekedAfter 0"
  let ?draw0 = "\<lambda>(f::nat) (t::number) (r::Region). None :: Error option"
  let ?add0 = "\<lambda>(f::nat) (fr::Frame). None :: Error option"
  have fT: "f < T"
  proof (rule ccontr)
    assume "\<not> f < T"
    then have "fs0 = acc0" using "1.prems"(2) by (simp add: frame_loop_done)
    then show False using "1.prems"(3) by simp
  qed
  have it0: "captured ?seek0 ?draw0 ?add0 r0 s (nat f) t"
    by (simp add: captured_def in_time_def)
  have first: "frame_time (fs0 ! length acc0) = t"
  proof (cases "endTime s < fadd t step")
    case True
    then have "fs0 = acc0 @ [?mkz t]"
      using "1.prems"(2) fT it0 by (simp add: frame_loop_last)
    then show ?thesis by simp
  next
    case False
    from frame_loop_captured [OF ideal_captured, of r0 s T step "f + 1" "fadd t step"
        "acc0 @ [?mkz t]"]
    obtain ts where "frame_loop ?seek0 ?draw0 ?add0 r0 s T step (f + 1) (fadd t step)
        (acc0 @ [?mkz t]) = Inr ((acc0 @ [?mkz t]) @ map ?mkz ts)"
      by blast
    then have "fs0 = (acc0 @ [?mkz t]) @ map ?mkz ts"
      using "1.prems"(2) fT it0 False by (simp add: frame_loop_next)
    then show ?thesis by (simp add: nth_append)
  qed
  show ?case
  proof (cases k)
    case 0
    then have nc: "\<not> captured seek draw add r s (nat f) t" using "1.prems"(5) first by simp
    show ?thesis
    proof (cases "in_time (seek (nat f) t)")
      case True
      then show ?thesis using 0 first frame_loop_throws [OF fT True nc] by simp
    next
      case False
      then show ?thesis using fT by (simp add: frame_loop_timeout)
    qed
  next
    case (Suc k')
    have it: "captured seek draw add r s (nat f) t"
      using "1.prems"(4) [rule_format, of 0] first Suc by simp
    have go: "\<not> endTime s < fadd t step"
    proof
      assume "endTime s < fadd t step"
      then have "fs0 = acc0 @ [?mkz t]"
        using "1.prems"(2) fT it0 by (simp add: frame_loop_last)
      then show False using "1.prems"(3) Suc by simp
    qed
    have ideal': "frame_loop ?seek0 ?draw0 ?add0 r0 s T step (f + 1) (fadd t step)
        (acc0 @ [?mkz t]) = Inr fs0"
      using "1.prems"(2) fT it0 go by (simp add: frame_loop_next)
    have nf: "nat (f + 1) = nat f + 1" using "1.prems"(1) by simp
    have e1: "nat (f + 1) + k' = nat f + k" using "1.prems"(1) Suc by simp
    have e2: "length (acc0 @ [?mkz t]) + k' = length acc0 + k" using Suc by simp
    have "(\<exists>err. frame_loop seek draw add r s T step (f + 1) (fadd t step) (acc @ [?mk t])
              = Inl err)
        \<and> (\<not> in_time (seek (nat (f + 1) + k')
                (frame_time (fs0 ! (length (acc0 @ [?mkz t]) + k'))))
            \<longrightarrow> frame_loop seek draw add r s T step (f + 1) (fadd t step) (acc @ [?mk t])
                  = Inl (Error SeekTimeout))"
    proof (rule "1.IH" [OF fT captured_seekTo [OF it] captured_draw [OF it] captured_add [OF it]
          refl refl go _ ideal', of k'])
      show "0 \<le> f + 1" using "1.prems"(1) by simp
      show "k' < length fs0 - length (acc0 @ [?mkz t])" using "1.prems"(3) Suc by simp
      show "\<forall>j<k'. captured seek draw add r s (nat (f + 1) + j)
          (frame_time (fs0 ! (length (acc0 @ [?mkz t]) + j)))"
      proof (intro allI impI)
        fix j assume "j < k'"
        then have "j + 1 < k" using Suc by simp
        then have a: "captured seek draw add r s (nat f + (j + 1))
            (frame_time (fs0 ! (length acc0 + (j + 1))))"
          using "1.prems"(4) by blast
        have e1: "nat (f + 1) + j = nat f + (j + 1)" using "1.prems"(1) by simp
        have e2: "length (acc0 @ [?mkz t]) + j = length acc0 + (j + 1)" by simp
        show "captured seek draw add r s (nat (f + 1) + j)
            (frame_time (fs0 ! (length (acc0 @ [?mkz t]) + j)))"
          unfolding e1 e2 by (rule a)
      qed
      show "\<not> captured seek draw add r s (nat (f + 1) + k')
          (frame_time (fs0 ! (length (acc0 @ [?mkz t]) + k')))"
        unfolding e1 e2 by (rule "1.prems"(5))
    qed
    then have "(\<exists>err. frame_loop seek draw add r s T step (f + 1) (fadd t step) (acc @ [?mk t])
              = Inl err)
        \<and> (\<not> in_time (seek (nat f + k) (frame_time (fs0 ! (length acc0 + k))))
            \<longrightarrow> frame_loop seek draw add r s T step (f + 1) (fadd t step) (acc @ [?mk t])
                  = Inl (Error SeekTimeout))"
      unfolding e1 e2 .
    then show ?thesis using fT it go by (simp add: frame_loop_next)
  qed
qed

lemma sample_times_frames:
  "\<exists>fs0. sample_frames (\<lambda>f t. SeekedAfter 0) (\<lambda>f t r. None) (\<lambda>f fr. None)
            \<lparr>sx = 0, sy = 0, sw = 0, sh = 0\<rparr> s = Inr fs0
     \<and> sample_times s = map frame_time fs0"
  using sample_frames_captured [OF ideal_captured, of "\<lparr>sx = 0, sy = 0, sw = 0, sh = 0\<rparr>" s]
  by (auto simp: sample_times_def)

lemma sample_frames_fails:
  assumes "k < length (sample_times s)"
    and "\<forall>j<k. captured seek draw add r s j (sample_times s ! j)"
    and "\<not> captured seek draw add r s k (sample_times s ! k)"
  shows "\<exists>err. sample_frames seek draw add r s = Inl err"
    and "\<not> in_time (seek k (sample_times s ! k))
       \<Longrightarrow> sample_frames seek draw add r s = Inl (Error SeekTimeout)"
proof -
  obtain fs0 where fs0:
    "sample_frames (\<lambda>f t. SeekedAfter 0) (\<lambda>f t r. None) (\<lambda>f fr. None)
       \<lparr>sx = 0, sy = 0, sw = 0, sh = 0\<rparr> s = Inr fs0"
    "sample_times s = map frame_time fs0"
    using sample_times_frames by blast
  have ideal: "frame_loop (\<lambda>f t. SeekedAfter 0) (\<lambda>f t r. None) (\<lambda>f fr. None)
      \<lparr>sx = 0, sy = 0, sw = 0, sh = 0\<rparr> s
      (totalFrames_of s) (fdiv 1 (fps s)) 0 (startTime s) [] = Inr fs0"
    using fs0(1) by (simp add: sample_frames_def Let_def)
  have k: "k < length fs0 - length ([] :: Frame list)" using assms(1) fs0(2) by simp
  have before: "\<forall>j<k. captured seek draw add r s (nat 0 + j)
      (frame_time (fs0 ! (length ([] :: Frame list) + j)))"
    using assms(1,2) fs0(2) by simp
  have bad: "\<not> captured seek draw add r s (nat 0 + k)
      (frame_time (fs0 ! (length ([] :: Frame list) + k)))"
    using assms(1,3) fs0(2) by simp
  have tk: "sample_times s ! k = frame_time (fs0 ! (length ([] :: Frame list) + k))"
    using assms(1) fs0(2) by simp
  have both: "(\<exists>err. frame_loop seek draw add r s (totalFrames_of s) (fdiv 1 (fps s)) 0
                 (startTime s) [] = Inl err)
      \<and> (\<not> in_time (seek (nat 0 + k) (frame_time (fs0 ! (length ([] :: Frame list) + k))))
           \<longrightarrow> frame_loop seek draw add r s (totalFrames_of s) (fdiv 1 (fps s)) 0
                 (startTime s) [] = Inl (Error SeekTimeout))"
    using _ ideal k before bad by (rule frame_loop_fails) simp
  show "\<exists>err. sample_frames seek draw add r s = Inl err"
    using both by (simp add: sample_frames_def Let_def)
  show "sample_frames seek draw add r s = Inl (Error SeekTimeout)"
    if "\<not> in_time (seek k (sample_times s ! k))"
    using both that unfolding tk by (simp add: sample_frames_def Let_def)
qed

text \<open>An error thrown while the first frame is added rejects the slice with that error,
  whatever a later seek would have done.\<close>

lemma sample_frames_first_add_throws:
  assumes "in_time (seek 0 (startTime s))" "draw 0 (startTime s) r = None"
    and "add 0 \<lparr>frame_time = startTime s, frame_region = r, frame_delay = fdiv 1000 (fps s)\<rparr>
           = Some err"
  shows "sample_frames seek draw add r s = Inl err"
proof -
  have "0 < totalFrames_of s" using totalFrames_pos [of s] by simp
  then show ?thesis
    using assms
    by (simp add: sample_frames_def Let_def)
       (subst frame_loop.simps, simp add: seekTo_in_time)
qed

lemma video_slice_outcome:
  assumes "\<not> not_ready s" "mode s = VIDEO" "videoRef_current w" "window_GIF w"
  shows "slice_outcome w s j =
     (case sample_frames (video_seek w j) (ctx_drawImage w j) (gif_addFrame w j)
             (slice_region s j) (settings s) of
        Inl err \<Rightarrow> Rejected err
      | Inr frames \<Rightarrow>
          (case gif_render w j (quality (settings s)) frames of
             Resolved b \<Rightarrow> Resolved \<lparr>blob = b, url = UrlOfBlob b\<rparr>
           | Rejected err \<Rightarrow> Rejected err
           | Pending \<Rightarrow> Pending))"
proof -
  obtain u where "workerBlobUrl s = Some u" using assms(1,2) by (auto simp: not_ready_def)
  then show ?thesis
    using assms(2,3,4) by (simp add: slice_outcome_def produce_def sliceVideoToGif_def)
qed

text \<open>An error of the encoder at the first frame is the outcome of the slice.\<close>

lemma encoder_error_rejects:
  assumes "\<not> not_ready s" "mode s = VIDEO" "videoRef_current w" "window_GIF w"
    and "in_time (video_seek w i 0 (startTime (settings s)))"
    and "ctx_drawImage w i 0 (startTime (settings s)) (slice_region s i) = None"
    and "gif_addFrame w i 0 \<lparr>frame_time = startTime (settings s),
           frame_region = slice_region s i,
           frame_delay = fdiv 1000 (fps (settings s))\<rparr> = Some err"
  shows "slice_outcome w s i = Rejected err"
  using sample_frames_first_add_throws [where seek = "video_seek w i"
      and draw = "ctx_drawImage w i" and add = "gif_addFrame w i" and s = "settings s"
      and r = "slice_region s i", OF assms(5,6,7)]
  by (simp add: video_slice_outcome [OF assms(1-4)])

text \<open>When \<^verbatim>\<open>addFrame\<close> throws at the first frame of slice 0 and the seek of its frame 3
  would never be answered, the slice is rejected with the error of the encoder: the late
  seek is never issued.\<close>

lemma encoder_error_before_late_seek:
  "slice_outcome
     ((video_world (Some (0, 3)))
        \<lparr>gif_addFrame := (\<lambda>i f fr. Some (Error (Text ''encoder failure'')))\<rparr>)
     video_state 0 = Rejected (Error (Text ''encoder failure''))"
  by (rule encoder_error_rejects [OF video_ready]) (simp_all add: in_time_def)

lemma sample_frames_all_captured:
  assumes "sample_frames seek draw add r s = Inr frames"
  shows "\<forall>n<length (sample_times s). captured seek draw add r s n (sample_times s ! n)"
proof (rule ccontr)
  let ?bad = "\<lambda>n. n < length (sample_times s) \<and> \<not> captured seek draw add r s n (sample_times s ! n)"
  assume "\<not> (\<forall>n<length (sample_times s). captured seek draw add r s n (sample_times s ! n))"
  then obtain n where n: "?bad n" by blast
  define k where "k = (LEAST n. ?bad n)"
  have k: "?bad k" unfolding k_def using n by (rule LeastI)
  have before: "\<forall>j<k. captured seek draw add r s j (sample_times s ! j)"
  proof (intro allI impI)
    fix j assume j: "j < k"
    then have "\<not> ?bad j" unfolding k_def by (rule not_less_Least)
    moreover have "j < length (sample_times s)" using j k by simp
    ultimately show "captured seek draw add r s j (sample_times s ! j)" by blast
  qed
  have "\<exists>err. sample_frames seek draw add r s = Inl err"
    using conjunct1 [OF k] before conjunct2 [OF k] by (rule sample_frames_fails(1))
  with assms show False by auto
qed

text \<open>
  Claim C6. A seek completes when \<^verbatim>\<open>seeked\<close> is dispatched less than 5000 ms after the
  time was set; otherwise the timer rejects it with the seek-timeout error. In a video run
  that passes the guard, let slice \<open>i\<close> be reached, let the frames before frame \<open>k\<close> of
  its schedule be captured (seek answered in time, nothing thrown while the frame is drawn
  and added to the encoder), so that the seek for frame \<open>k\<close> is issued, and let that seek
  not complete in time. Then the production of slice \<open>i\<close> is rejected with the
  seek-timeout error and the whole run is aborted: the status shows the failure with the
  timeout message, the error is logged, slots \<open>i\<close> and later stay empty, no later slice is
  started and the processing flag is cleared. Every frame of the slices produced before
  had been captured, its seek answered in time.
\<close>

theorem seek_timeout_aborts:
  assumes "\<not> not_ready s" and "mode s = VIDEO" and "videoRef_current w" and "window_GIF w"
    and "i < 9" and "\<forall>j<i. slot w s j \<noteq> None"
    and "k < length (sample_times (settings s))"
    and "\<forall>j<k. captured (video_seek w i) (ctx_drawImage w i) (gif_addFrame w i)
                  (slice_region s i) (settings s) j (sample_times (settings s) ! j)"
    and "\<not> in_time (video_seek w i k (sample_times (settings s) ! k))"
  shows "slice_outcome w s i = Rejected (Error SeekTimeout)
       \<and> status (handleProcess w s) = ProcessFailed SeekTimeout
       \<and> console_errors (handleProcess_events w s) = [Error SeekTimeout]
       \<and> results (handleProcess w s) = results_after w s i
       \<and> (\<forall>j<9. (results (handleProcess w s) ! j = None) = (i \<le> j))
       \<and> \<not> isProcessing (handleProcess w s)
       \<and> (\<forall>j \<in> set (slicer_calls (handleProcess_events w s)). j \<le> i)
       \<and> (\<forall>j<i. \<forall>n<length (sample_times (settings s)).
             captured (video_seek w j) (ctx_drawImage w j) (gif_addFrame w j)
               (slice_region s j) (settings s) n (sample_times (settings s) ! n)
             \<and> in_time (video_seek w j n (sample_times (settings s) ! n)))
       \<and> (\<forall>r. seekTo r = (if \<exists>ms<5000. r = SeekedAfter ms then Inr ()
                           else Inl (Error SeekTimeout)))"
proof -
  have nc: "\<not> captured (video_seek w i) (ctx_drawImage w i) (gif_addFrame w i)
      (slice_region s i) (settings s) k (sample_times (settings s) ! k)"
    using assms(9) by (simp add: captured_def)
  have "sample_frames (video_seek w i) (ctx_drawImage w i) (gif_addFrame w i)
      (slice_region s i) (settings s) = Inl (Error SeekTimeout)"
    using assms(7,8) nc assms(9) by (rule sample_frames_fails(2))
  then have out: "slice_outcome w s i = Rejected (Error SeekTimeout)"
    by (simp add: video_slice_outcome [OF assms(1-4)])
  note run = run_rejected [OF assms(1,5,6) out, of w]
  have earlier: "captured (video_seek w j) (ctx_drawImage w j) (gif_addFrame w j)
               (slice_region s j) (settings s) n (sample_times (settings s) ! n)
             \<and> in_time (video_seek w j n (sample_times (settings s) ! n))"
    if "j < i" "n < length (sample_times (settings s))" for j n
  proof -
    from that(1) assms(6) obtain res where "slice_outcome w s j = Resolved res"
      by (auto simp: slot_None_iff)
    then obtain frames where
      "sample_frames (video_seek w j) (ctx_drawImage w j) (gif_addFrame w j)
         (slice_region s j) (settings s) = Inr frames"
      by (auto simp: video_slice_outcome [OF assms(1-4)] split: sum.splits)
    then have "captured (video_seek w j) (ctx_drawImage w j) (gif_addFrame w j)
               (slice_region s j) (settings s) n (sample_times (settings s) ! n)"
      using sample_frames_all_captured that(2) by blast
    then show ?thesis by (simp add: captured_def)
  qed
  have msg: "message_or_unknown (Error SeekTimeout) = SeekTimeout"
    by (simp add: message_or_unknown_def)
  have timer: "\<forall>r. seekTo r = (if \<exists>ms<5000. r = SeekedAfter ms then Inr ()
                           else Inl (Error SeekTimeout))"
    by (simp add: seekTo_in_time in_time_iff)
  have e_all: "\<forall>j<i. \<forall>n<length (sample_times (settings s)).
             captured (video_seek w j) (ctx_drawImage w j) (gif_addFrame w j)
               (slice_region s j) (settings s) n (sample_times (settings s) ! n)
             \<and> in_time (video_seek w j n (sample_times (settings s) ! n))"
    using earlier by blast
  show ?thesis
    using out run [unfolded msg] e_all timer by (intro conjI) blast+
qed

lemma video_sample_times:
  "sample_times video_settings =
     [0, 3602879701896397 / 36028797018963968, 3602879701896397 / 18014398509481984,
      1351079888211149 / 4503599627370496, 3602879701896397 / 9007199254740992, 1 / 2,
      5404319552844595 / 9007199254740992, 3152519739159347 / 4503599627370496,
      7205759403792793 / 9007199254740992, 2026619832316723 / 2251799813685248]"
  using video_frames [OF ideal_captured, of "\<lparr>sx = 0, sy = 0, sw = 0, sh = 0\<rparr>"]
  by (auto simp: sample_times_def)

lemma video_outcome:
  assumes "late = None \<or> fst (the late) \<noteq> j"
  shows "slice_outcome (video_world late) video_state j
      = Resolved \<lparr>blob = Blob (j + 1), url = UrlOfBlob (Blob (j + 1))\<rparr>"
proof -
  have "\<forall>g t. captured (video_seek (video_world late) j) (ctx_drawImage (video_world late) j)
      (gif_addFrame (video_world late) j) (slice_region video_state j) video_settings g t"
    using assms by (auto simp: captured_def in_time_def)
  then obtain frames where
    "sample_frames (video_seek (video_world late) j) (ctx_drawImage (video_world late) j)
       (gif_addFrame (video_world late) j) (slice_region video_state j) video_settings
       = Inr frames"
    using sample_frames_captured by blast
  then show ?thesis
    by (simp add: video_slice_outcome [OF video_ready])
qed

lemma video_slot_resolved:
  assumes "j \<noteq> i"
  shows "slot (video_world (Some (i, f))) video_state j \<noteq> None"
  using assms by (simp add: slot_def video_outcome)


theorem seek_timeout_aborts_witness:
  "\<not> not_ready video_state \<and> mode video_state = VIDEO
   \<and> videoRef_current (video_world (Some (2, 3))) \<and> window_GIF (video_world (Some (2, 3)))
   \<and> (2::nat) < 9
   \<and> list_all (\<lambda>j. slot (video_world (Some (2, 3))) video_state j \<noteq> None) [0, 1]
   \<and> 3 < length (sample_times (settings video_state))
   \<and> list_all (\<lambda>j. captured (video_seek (video_world (Some (2, 3))) 2)
                        (ctx_drawImage (video_world (Some (2, 3))) 2)
                        (gif_addFrame (video_world (Some (2, 3))) 2)
                        (slice_region video_state 2) (settings video_state) j
                        (sample_times (settings video_state) ! j)) [0, 1, 2]
   \<and> \<not> in_time (video_seek (video_world (Some (2, 3))) 2 3
             (sample_times (settings video_state) ! 3))
   \<and> slice_outcome (video_world (Some (2, 3))) video_state 2 = Rejected (Error SeekTimeout)
   \<and> status (handleProcess (video_world (Some (2, 3))) video_state) = ProcessFailed SeekTimeout
   \<and> \<not> isProcessing (handleProcess (video_world (Some (2, 3))) video_state)"
proof -
  let ?W = "video_world (Some (2, 3))"
  have h2: "mode video_state = VIDEO" and h3: "videoRef_current ?W" and h4: "window_GIF ?W"
    and h5: "(2::nat) < 9"
    by simp_all
  have h6: "\<forall>j<2. slot ?W video_state j \<noteq> None"
    by (simp add: video_slot_resolved)
  have h7: "3 < length (sample_times (settings video_state))"
    by (simp add: video_sample_times)
  have h8: "\<forall>j<3. captured (video_seek ?W 2) (ctx_drawImage ?W 2) (gif_addFrame ?W 2)
      (slice_region video_state 2) (settings video_state) j
      (sample_times (settings video_state) ! j)"
    by (simp add: captured_def in_time_def)
  have h9: "\<not> in_time (video_seek ?W 2 3 (sample_times (settings video_state) ! 3))"
    by (simp add: in_time_def)
  note c = seek_timeout_aborts [OF video_ready h2 h3 h4 h5 h6 h7 h8 h9]
  have "slice_outcome ?W video_state 2 = Rejected (Error SeekTimeout)"
    "status (handleProcess ?W video_state) = ProcessFailed SeekTimeout"
    "\<not> isProcessing (handleProcess ?W video_state)"
    using c by blast+
  moreover have "list_all (\<lambda>j. slot ?W video_state j \<noteq> None) [0, 1]"
    using video_slot_resolved [of 0 2 3] video_slot_resolved [of 1 2 3] by simp
  moreover have "list_all (\<lambda>j. captured (video_seek ?W 2) (ctx_drawImage ?W 2)
      (gif_addFrame ?W 2) (slice_region video_state 2) (settings video_state) j
      (sample_times (settings video_state) ! j)) [0, 1, 2]"
    by (simp add: captured_def in_time_def)
  ultimately show ?thesis
    using video_ready h2 h3 h4 h5 h7 h9 by (intro conjI)
qed

section \<open>The archive\<close>










lemma image_world_zip [simp]:
  "window_JSZip (image_world bad) = True"
  "zip_generateAsync (image_world bad) z = Resolved (Blob 9)"
  by (simp_all add: image_world_def)



end
